theory Spec2Isabelle
  imports Main
begin

section \<open>The transactional change-log watcher\<close>

text \<open>
  A shallow embedding of the \<^verbatim>\<open>watcher\<close> package: the dispatcher state of
  \<^verbatim>\<open>Watcher\<close>, its request handler \<^verbatim>\<open>handle\<close>, the sync pass \<^verbatim>\<open>sync\<close> and
  the delivery loop \<^verbatim>\<open>flush\<close>.

  Revision numbers are Go \<^verbatim>\<open>int64\<close> values. The code only compares them and
  replaces negative ones by \<open>-1\<close>; it never does arithmetic on them, so they
  are modelled by \<^typ>\<open>int\<close>.
\<close>

subsection \<open>Values, keys, subscribers, events\<close>

text \<open>
  A Go \<^verbatim>\<open>interface{}\<close> value that may be used as a map key or compared with
  \<^verbatim>\<open>==\<close>: \<^verbatim>\<open>nil\<close>, an \<^verbatim>\<open>int64\<close>, or any other comparable value (an ObjectId,
  a string, ...), for which the type parameter stands.
\<close>

datatype 'a scalar = SNil | SInt64 int | SOther 'a

text \<open>
  The values found inside a change-log document: a scalar, a nested document
  (\<^verbatim>\<open>bson.D\<close>, an ordered list of named fields) or an array
  (\<^verbatim>\<open>[]interface{}\<close>). The last two are slices, which Go can neither hash
  nor compare.
\<close>

datatype 'a bval = Scalar "'a scalar" | BDoc "(string \<times> 'a bval) list" | BArr "'a bval list"

text \<open>\<^verbatim>\<open>watchKey{c, id}\<close>; the id is \<^verbatim>\<open>nil\<close> when watching a collection.\<close>

record 'a watchKey =
  key_c :: string
  key_id :: "'a scalar"

text \<open>\<^verbatim>\<open>watchInfo{ch, revno}\<close>; a channel is a reference, \<open>None\<close> is the nil channel.\<close>

record 'c watchInfo =
  ch :: "'c option"
  revno :: int

text \<open>\<^verbatim>\<open>event{ch, key, revno}\<close>.\<close>

record ('a, 'c) event =
  e_ch :: "'c option"
  e_key :: "'a watchKey"
  e_revno :: int

text \<open>\<^verbatim>\<open>Change{C, Id, Revno}\<close>, the value sent on a subscriber's channel.\<close>

datatype 'a change = Change string "'a scalar" int

text \<open>
  The requests delivered to the dispatcher. \<open>ReqOther\<close> stands for any value
  of another type, which \<^verbatim>\<open>handle\<close> rejects in its default branch.
\<close>

datatype ('a, 'c, 'd) req =
    ReqSync "'d option"
  | ReqWatch "'a watchKey" "'c watchInfo"
  | ReqUnwatch "'a watchKey" "'c option"
  | ReqOther

text \<open>The ways in which the dispatcher goroutine stops abnormally.\<close>

datatype fatal =
    PanicDupChannel
  | PanicUnknownReq
  | PanicIdNotFirst
  | PanicRuntime
  | IterError

text \<open>
  The dispatcher's state. \<open>watches\<close> is total: Go reads a missing key of
  \<^verbatim>\<open>map[watchKey][]watchInfo\<close> as the nil slice. \<open>current\<close> is partial, since
  \<^verbatim>\<open>handle\<close> tests for presence. \<open>requestCap\<close> is the capacity of the backing
  array of \<^verbatim>\<open>requestEvents\<close>: \<^verbatim>\<open>append\<close> moves the slice to a new array exactly
  when the length has reached it, and \<^verbatim>\<open>flush\<close> holds a pointer into that
  array while requests are handled. \<open>growslice\<close> is not a field of the
  source: it stands for the Go runtime, which chooses the capacity of the new
  array from the old capacity (by doubling, growing by a quarter and rounding
  to allocation sizes, depending on its version); the language promises no
  more than room for the appended element. \<open>nextNow\<close> records that \<^verbatim>\<open>next\<close> was set
  to \<^verbatim>\<open>time.After(0)\<close>. The tomb, the log collection and the request channel
  are not part of the state: the log is an argument of the sync pass, and the
  requests and the tomb's death reach \<^verbatim>\<open>flush\<close> through its schedule.
\<close>

record ('a, 'c, 'd) watcher =
  watches :: "'a watchKey \<Rightarrow> 'c watchInfo list"
  current :: "'a watchKey \<Rightarrow> int option"
  syncEvents :: "('a, 'c) event list"
  requestEvents :: "('a, 'c) event list"
  requestCap :: nat
  growslice :: "nat \<Rightarrow> nat"
  syncDone :: "'d list"
  lastId :: "'a bval"
  nextNow :: bool

text \<open>
  The watcher that \<^verbatim>\<open>New\<close> returns, once \<^verbatim>\<open>loop\<close> has set \<^verbatim>\<open>next\<close> and
  \<^verbatim>\<open>initLastId\<close> has stored the id \<open>lid\<close> of the newest log entry (\<^verbatim>\<open>nil\<close> for
  an empty log), on a runtime that grows slices by \<open>grow\<close>.
\<close>

definition New :: "(nat \<Rightarrow> nat) \<Rightarrow> 'a bval \<Rightarrow> ('a, 'c, 'd) watcher" where
  "New grow lid = \<lparr> watches = (\<lambda>_. []), current = Map.empty, syncEvents = [],
                    requestEvents = [], requestCap = 0, growslice = grow, syncDone = [],
                    lastId = lid, nextNow = True \<rparr>"

subsection \<open>Request handling\<close>

text \<open>
  \<^verbatim>\<open>w.requestEvents = append(w.requestEvents, e)\<close>. \<^verbatim>\<open>append\<close> writes into
  the backing array while the length is below the capacity, and moves the
  slice to a new array otherwise, whose capacity is the runtime's choice and
  at least the new length. So the capacity changes exactly when the slice is
  moved.
\<close>

definition append_request :: "('a, 'c) event \<Rightarrow> ('a, 'c, 'd) watcher \<Rightarrow> ('a, 'c, 'd) watcher" where
  "append_request e w =
     w\<lparr> requestEvents := requestEvents w @ [e],
        requestCap := (if length (requestEvents w) < requestCap w then requestCap w
                       else max (Suc (length (requestEvents w)))
                                (growslice w (requestCap w))) \<rparr>"

text \<open>The catch-up test of \<^verbatim>\<open>reqWatch\<close> on a registry value and a declared revno.\<close>

definition newer :: "int \<Rightarrow> int \<Rightarrow> bool" where
  "newer rv known \<longleftrightarrow> rv > known \<or> rv = -1 \<and> known \<ge> 0"

text \<open>The index of the first record with the given channel, as the detach loop finds it.\<close>

fun find_ch :: "'c option \<Rightarrow> 'c watchInfo list \<Rightarrow> nat option" where
  "find_ch c [] = None"
| "find_ch c (x # xs) =
     (if ch x = c then Some 0 else map_option Suc (find_ch c xs))"

text \<open>
  \<^verbatim>\<open>watches[i] = watches[len(watches)-1]; w.watches[r.key] = watches[:len(watches)-1]\<close>
  at the first match; no match leaves the list as it is.
\<close>

definition detach :: "'c option \<Rightarrow> 'c watchInfo list \<Rightarrow> 'c watchInfo list" where
  "detach c ws =
     (case find_ch c ws of
        None \<Rightarrow> ws
      | Some i \<Rightarrow> butlast (ws[i := ws ! (length ws - 1)]))"

text \<open>Clearing the channel of a queued event of the detached subscription.\<close>

definition tombstone :: "'a watchKey \<Rightarrow> 'c option \<Rightarrow> ('a, 'c) event \<Rightarrow> ('a, 'c) event" where
  "tombstone k c e = (if e_key e = k \<and> e_ch e = c then e\<lparr>e_ch := None\<rparr> else e)"

fun handle :: "('a, 'c, 'd) req \<Rightarrow> ('a, 'c, 'd) watcher \<Rightarrow> fatal + ('a, 'c, 'd) watcher" where
  "handle (ReqSync done) w =
     Inr (w\<lparr> nextNow := True,
             syncDone := (case done of None \<Rightarrow> syncDone w | Some d \<Rightarrow> syncDone w @ [d]) \<rparr>)"
| "handle (ReqWatch key info) w =
     (if \<exists>i \<in> set (watches w key). ch i = ch info then Inl PanicDupChannel
      else
        (case current w key of
           Some rv \<Rightarrow>
             if newer rv (revno info) then
               (let info' = info\<lparr>revno := rv\<rparr>;
                    w' = append_request \<lparr>e_ch = ch info', e_key = key, e_revno = rv\<rparr> w
                in Inr (w'\<lparr>watches := (watches w')(key := watches w' key @ [info'])\<rparr>))
             else Inr (w\<lparr>watches := (watches w)(key := watches w key @ [info])\<rparr>)
         | None \<Rightarrow> Inr (w\<lparr>watches := (watches w)(key := watches w key @ [info])\<rparr>)))"
| "handle (ReqUnwatch key c) w =
     Inr (w\<lparr> watches := (watches w)(key := detach c (watches w key)),
             requestEvents := map (tombstone key c) (requestEvents w),
             syncEvents := map (tombstone key c) (syncEvents w) \<rparr>)"
| "handle ReqOther w = Inl PanicUnknownReq"

subsection \<open>The sync pass\<close>

text \<open>A change-log document is a \<^verbatim>\<open>bson.D\<close>: its fields in order.\<close>

type_synonym 'a entry = "(string \<times> 'a bval) list"

text \<open>
  The type assertions \<^verbatim>\<open>c.Value.(bson.D)\<close> and \<^verbatim>\<open>item.Value.([]interface{})\<close>
  with their results ignored: a value of another type gives the nil slice.
\<close>

definition asDoc :: "'a bval \<Rightarrow> (string \<times> 'a bval) list" where
  "asDoc v = (case v of BDoc items \<Rightarrow> items | _ \<Rightarrow> [])"

definition asArr :: "'a bval \<Rightarrow> 'a bval list" where
  "asArr v = (case v of BArr xs \<Rightarrow> xs | _ \<Rightarrow> [])"

text \<open>The loop over the items of a collection field, which picks out \<^verbatim>\<open>d\<close> and \<^verbatim>\<open>r\<close>.\<close>

fun scan_dr :: "(string \<times> 'a bval) list \<Rightarrow> 'a bval list \<Rightarrow> 'a bval list
                \<Rightarrow> 'a bval list \<times> 'a bval list" where
  "scan_dr [] d r = (d, r)"
| "scan_dr ((name, v) # items) d r =
     (if name = ''d'' then scan_dr items (asArr v) r
      else if name = ''r'' then scan_dr items d (asArr v)
      else scan_dr items d r)"

text \<open>\<^verbatim>\<open>if revno < 0 { revno = -1 }\<close>.\<close>

definition canonical :: "int \<Rightarrow> int" where
  "canonical rv = (if rv < 0 then -1 else rv)"

text \<open>
  The one-value read \<^verbatim>\<open>w.current[key]\<close> of the sync pass: Go returns the zero
  value of \<^verbatim>\<open>int64\<close> for a key that is not in the map.
\<close>

definition current_at :: "('a, 'c, 'd) watcher \<Rightarrow> 'a watchKey \<Rightarrow> int" where
  "current_at w key = (case current w key of None \<Rightarrow> 0 | Some rv \<Rightarrow> rv)"

text \<open>
  The loop over the per-document watches of a key: the records with their
  revno advanced where an event is queued, and the events queued, in order.
\<close>

fun notify_docs :: "'a watchKey \<Rightarrow> int \<Rightarrow> 'c watchInfo list
                    \<Rightarrow> 'c watchInfo list \<times> ('a, 'c) event list" where
  "notify_docs key rv [] = ([], [])"
| "notify_docs key rv (info # infos) =
     (let (infos', es) = notify_docs key rv infos
      in if rv > revno info \<or> rv < 0 \<and> revno info \<ge> 0
         then (info\<lparr>revno := rv\<rparr> # infos', \<lparr>e_ch = ch info, e_key = key, e_revno = rv\<rparr> # es)
         else (info # infos', es))"

text \<open>
  What the pass does with a key whose revno differs from the registry's: it
  stores the revno, queues an event for every per-collection watch, then
  runs the loop over the per-document watches.
\<close>

definition observe :: "'a watchKey \<Rightarrow> int \<Rightarrow> ('a, 'c, 'd) watcher \<Rightarrow> ('a, 'c, 'd) watcher" where
  "observe key rv w =
     (let w1 = w\<lparr>current := (current w)(key \<mapsto> rv)\<rparr>;
          w2 = w1\<lparr>syncEvents := syncEvents w1 @
                  map (\<lambda>info. \<lparr>e_ch = ch info, e_key = key, e_revno = rv\<rparr>)
                      (watches w1 \<lparr>key_c = key_c key, key_id = SNil\<rparr>)\<rparr>;
          (infos', es) = notify_docs key rv (watches w2 key)
      in w2\<lparr>watches := (watches w2)(key := infos'), syncEvents := syncEvents w2 @ es\<rparr>)"

text \<open>
  The body of the loop over the documents of a collection field, for the
  document \<open>di\<close> with revno \<open>ri\<close>. Building the key hashes the document id:
  Go panics there on an id that is a nested document or an array.
\<close>

definition sync_doc :: "string \<Rightarrow> 'a bval \<Rightarrow> 'a bval \<Rightarrow> 'a watchKey set \<times> ('a, 'c, 'd) watcher
                        \<Rightarrow> fatal + 'a watchKey set \<times> ('a, 'c, 'd) watcher" where
  "sync_doc cn di ri sw =
     (case di of
        Scalar s \<Rightarrow>
          (let key = \<lparr>key_c = cn, key_id = s\<rparr>; seen = fst sw; w = snd sw
           in if key \<in> seen then Inr sw
              else
                (case ri of
                   Scalar (SInt64 rv) \<Rightarrow>
                     if current_at w key = canonical rv then Inr (insert key seen, w)
                     else Inr (insert key seen, observe key (canonical rv) w)
                 | _ \<Rightarrow> Inr (insert key seen, w)))
      | _ \<Rightarrow> Inl PanicRuntime)"

text \<open>\<^verbatim>\<open>for i := len(d) - 1; i >= 0; i--\<close>, with \<open>n\<close> the number of indices left.\<close>

fun sync_docs :: "string \<Rightarrow> 'a bval list \<Rightarrow> 'a bval list \<Rightarrow> nat
                  \<Rightarrow> 'a watchKey set \<times> ('a, 'c, 'd) watcher
                  \<Rightarrow> fatal + 'a watchKey set \<times> ('a, 'c, 'd) watcher" where
  "sync_docs cn d r 0 sw = Inr sw"
| "sync_docs cn d r (Suc i) sw =
     (case sync_doc cn (d ! i) (r ! i) sw of
        Inl p \<Rightarrow> Inl p
      | Inr sw' \<Rightarrow> sync_docs cn d r i sw')"

text \<open>\<^verbatim>\<open>for _, c := range entry[1:]\<close>.\<close>

fun sync_fields :: "(string \<times> 'a bval) list \<Rightarrow> 'a watchKey set \<times> ('a, 'c, 'd) watcher
                    \<Rightarrow> fatal + 'a watchKey set \<times> ('a, 'c, 'd) watcher" where
  "sync_fields [] sw = Inr sw"
| "sync_fields ((cn, v) # cs) sw =
     (let (d, r) = scan_dr (asDoc v) [] []
      in if length d = 0 \<or> length d \<noteq> length r then sync_fields cs sw
         else (case sync_docs cn d r (length d) sw of
                 Inl p \<Rightarrow> Inl p
               | Inr sw' \<Rightarrow> sync_fields cs sw'))"

text \<open>
  \<^verbatim>\<open>id.Value == lastId\<close> on two interface values: Go panics when both hold a
  value of the same slice type, and compares the values otherwise.
\<close>

definition iface_eq :: "'a bval \<Rightarrow> 'a bval \<Rightarrow> fatal + bool" where
  "iface_eq a b =
     (case (a, b) of
        (BDoc _, BDoc _) \<Rightarrow> Inl PanicRuntime
      | (BArr _, BArr _) \<Rightarrow> Inl PanicRuntime
      | _ \<Rightarrow> Inr (a = b))"

text \<open>
  The loop over the change log, which the iterator yields newest first.
  \<open>lid\<close> is the \<^verbatim>\<open>lastId\<close> read before the loop; \<open>iter_err\<close> tells whether the
  iterator ends in an error once the entries are used up.
\<close>

fun sync_entries :: "'a bval \<Rightarrow> bool \<Rightarrow> 'a entry list \<Rightarrow> bool
                     \<Rightarrow> 'a watchKey set \<times> ('a, 'c, 'd) watcher
                     \<Rightarrow> fatal + ('a, 'c, 'd) watcher" where
  "sync_entries lid iter_err [] first sw = (if iter_err then Inl IterError else Inr (snd sw))"
| "sync_entries lid iter_err ([] # es) first sw = sync_entries lid iter_err es first sw"
| "sync_entries lid iter_err (((name, v) # cs) # es) first sw =
     (if name \<noteq> ''_id'' then Inl PanicIdNotFirst
      else
        (let sw1 = (if first then (fst sw, (snd sw)\<lparr>lastId := v\<rparr>) else sw)
         in case iface_eq v lid of
              Inl p \<Rightarrow> Inl p
            | Inr True \<Rightarrow> Inr (snd sw1)
            | Inr False \<Rightarrow>
                (case sync_fields cs sw1 of
                   Inl p \<Rightarrow> Inl p
                 | Inr sw' \<Rightarrow> sync_entries lid iter_err es False sw')))"

definition sync :: "('a, 'c, 'd) watcher \<Rightarrow> 'a entry list \<Rightarrow> bool
                    \<Rightarrow> fatal + ('a, 'c, 'd) watcher" where
  "sync w entries iter_err = sync_entries (lastId w) iter_err entries True ({}, w)"

subsection \<open>The sync pass as a list of triples\<close>

text \<open>
  The sync pass in the words of its description: the (collection, document
  id, revno) triples of the log in the order in which the pass takes them,
  and the pass as taking them one after the other. The properties below
  compare \<^verbatim>\<open>sync\<close> with this reading.

  The triples of a collection field are those of its \<^verbatim>\<open>d\<close> and \<^verbatim>\<open>r\<close> lists,
  last to first, and none when the lists are empty or differ in length.
\<close>

type_synonym 'a triple = "string \<times> 'a bval \<times> 'a bval"

definition field_triples :: "string \<times> 'a bval \<Rightarrow> 'a triple list" where
  "field_triples f =
     (let (d, r) = scan_dr (asDoc (snd f)) [] []
      in if length d = 0 \<or> length d \<noteq> length r then []
         else map (\<lambda>(di, ri). (fst f, di, ri)) (rev (zip d r)))"

text \<open>The triples of an entry: those of its fields after the first, in order.\<close>

definition entry_triples :: "'a entry \<Rightarrow> 'a triple list" where
  "entry_triples e = concat (map field_triples (tl e))"

text \<open>
  The entries a pass goes through: the non-empty ones, in the order of the
  iterator, up to the first one whose id is the \<^verbatim>\<open>lastId\<close> of the pass.
\<close>

fun scanned_entries :: "'a bval \<Rightarrow> 'a entry list \<Rightarrow> 'a entry list" where
  "scanned_entries lid [] = []"
| "scanned_entries lid ([] # es) = scanned_entries lid es"
| "scanned_entries lid ((f # cs) # es) =
     (if snd f = lid then [] else (f # cs) # scanned_entries lid es)"

definition pass_triples :: "'a bval \<Rightarrow> 'a entry list \<Rightarrow> 'a triple list" where
  "pass_triples lid es = concat (map entry_triples (scanned_entries lid es))"

text \<open>The id of the newest entry: the first field's value of the first non-empty one.\<close>

fun newest_id :: "'a entry list \<Rightarrow> 'a bval option" where
  "newest_id [] = None"
| "newest_id ([] # es) = newest_id es"
| "newest_id ((f # cs) # es) = Some (snd f)"

text \<open>Taking a list of triples in order, each one as the loop body of the pass does.\<close>

fun first_wins :: "'a triple list \<Rightarrow> 'a watchKey set \<times> ('a, 'c, 'd) watcher
                   \<Rightarrow> fatal + 'a watchKey set \<times> ('a, 'c, 'd) watcher" where
  "first_wins [] sw = Inr sw"
| "first_wins ((cn, di, ri) # ts) sw =
     (case sync_doc cn di ri sw of
        Inl p \<Rightarrow> Inl p
      | Inr sw' \<Rightarrow> first_wins ts sw')"

text \<open>
  An entry on which the pass does not panic before it reads the fields: it is
  empty, or its first field is \<^verbatim>\<open>_id\<close> with a value that Go can compare
  with the \<^verbatim>\<open>lastId\<close> of the pass.
\<close>

definition plain_entry :: "'a bval \<Rightarrow> 'a entry \<Rightarrow> bool" where
  "plain_entry lid e =
     (case e of [] \<Rightarrow> True | f # _ \<Rightarrow> fst f = ''_id'' \<and> \<not> isl (iface_eq (snd f) lid))"

subsection \<open>Flushing the queues\<close>

text \<open>
  Each time \<^verbatim>\<open>flush\<close> reaches its \<^verbatim>\<open>select\<close>, the environment decides which
  case runs: the tomb is dying, a request arrives, or the subscriber takes the
  event. A schedule lists these decisions in order.
\<close>

datatype ('a, 'c, 'd) sel = SelDying | SelReq "('a, 'c, 'd) req" | SelSend

text \<open>
  How a flush ends: it ran to completion, it returned because the tomb was
  dying, it is still waiting in a \<^verbatim>\<open>select\<close> when the schedule is used up,
  or a request made \<^verbatim>\<open>handle\<close> panic.
\<close>

datatype outcome = Flushed | Dying | Blocked | Panicked fatal

definition send_of :: "'c \<Rightarrow> ('a, 'c) event \<Rightarrow> 'c \<times> 'a change" where
  "send_of c e = (c, Change (key_c (e_key e)) (key_id (e_key e)) (e_revno e))"

lemma handle_request_length:
  "handle rq w = Inr w' \<Longrightarrow> length (requestEvents w') \<le> Suc (length (requestEvents w))"
  by (cases rq) (auto simp: append_request_def Let_def split: if_splits option.splits)

text \<open>
  The second loop of \<^verbatim>\<open>flush\<close>, from index \<open>i\<close> on. \<^verbatim>\<open>e := &w.requestEvents[i]\<close>
  points into the backing array the slice has when the index is reached. A
  request handled while the event waits may append to the slice; when that
  moves the slice to a new array, \<^verbatim>\<open>e\<close> keeps pointing into the old one,
  which nothing writes any more. \<open>stale = Some c\<close> says that this has
  happened and that the old element holds the channel \<open>c\<close>; \<open>stale = None\<close>
  says that \<^verbatim>\<open>e\<close> points into the slice.
\<close>

function flush_request :: "nat \<Rightarrow> 'c option \<Rightarrow> ('a, 'c, 'd) watcher \<Rightarrow> ('a, 'c, 'd) sel list
                          \<Rightarrow> ('c \<times> 'a change) list
                          \<Rightarrow> outcome \<times> ('a, 'c, 'd) watcher \<times> ('c \<times> 'a change) list" where
  "flush_request i stale w sched out =
     (if length (requestEvents w) \<le> i
      then (Flushed, w\<lparr>syncEvents := [], requestEvents := []\<rparr>, out)
      else
        (case (case stale of None \<Rightarrow> e_ch (requestEvents w ! i) | Some c \<Rightarrow> Some c) of
           None \<Rightarrow> flush_request (Suc i) None w sched out
         | Some c \<Rightarrow>
             (case sched of
                [] \<Rightarrow> (Blocked, w, out)
              | SelDying # _ \<Rightarrow> (Dying, w, out)
              | SelReq rq # rest \<Rightarrow>
                  (case handle rq w of
                     Inl p \<Rightarrow> (Panicked p, w, out)
                   | Inr w' \<Rightarrow>
                       flush_request i (if requestCap w' = requestCap w then stale else Some c)
                         w' rest out)
              | SelSend # rest \<Rightarrow>
                  flush_request (Suc i) None w rest (out @ [send_of c (requestEvents w ! i)]))))"
  by pat_completeness auto
termination
  by (relation "measure (\<lambda>(i, stale, w, sched, out).
                   2 * length sched + (length (requestEvents w) - i))")
     (auto dest: handle_request_length)

declare flush_request.simps [simp del]

text \<open>
  The first loop of \<^verbatim>\<open>flush\<close>, \<^verbatim>\<open>for i := len(w.syncEvents) - 1; i >= 0; i--\<close>,
  with \<open>n\<close> the number of indices left, followed by the second loop. No
  request appends to \<^verbatim>\<open>syncEvents\<close>, so \<^verbatim>\<open>e := &w.syncEvents[i]\<close> always
  points into the slice.
\<close>

fun flush_sync :: "nat \<Rightarrow> ('a, 'c, 'd) watcher \<Rightarrow> ('a, 'c, 'd) sel list
                   \<Rightarrow> ('c \<times> 'a change) list
                   \<Rightarrow> outcome \<times> ('a, 'c, 'd) watcher \<times> ('c \<times> 'a change) list" where
  "flush_sync 0 w sched out = flush_request 0 None w sched out"
| "flush_sync (Suc i) w sched out =
     (case e_ch (syncEvents w ! i) of
        None \<Rightarrow> flush_sync i w sched out
      | Some c \<Rightarrow>
          (case sched of
             [] \<Rightarrow> (Blocked, w, out)
           | SelDying # _ \<Rightarrow> (Dying, w, out)
           | SelReq rq # rest \<Rightarrow>
               (case handle rq w of
                  Inl p \<Rightarrow> (Panicked p, w, out)
                | Inr w' \<Rightarrow> flush_sync (Suc i) w' rest out)
           | SelSend # rest \<Rightarrow> flush_sync i w rest (out @ [send_of c (syncEvents w ! i)])))"

definition flush :: "('a, 'c, 'd) watcher \<Rightarrow> ('a, 'c, 'd) sel list
                     \<Rightarrow> outcome \<times> ('a, 'c, 'd) watcher \<times> ('c \<times> 'a change) list" where
  "flush w sched = flush_sync (length (syncEvents w)) w sched []"

text \<open>
  What a flush sends for a list of events taken in order, when every
  subscriber takes its event: nothing for an event whose channel is cleared.
\<close>

fun deliveries :: "('a, 'c) event list \<Rightarrow> ('c \<times> 'a change) list" where
  "deliveries [] = []"
| "deliveries (e # es) =
     (case e_ch e of None \<Rightarrow> deliveries es | Some c \<Rightarrow> send_of c e # deliveries es)"

subsection \<open>The states of the dispatcher\<close>

text \<open>
  A change-log entry all of whose document ids are present: no \<^verbatim>\<open>d\<close> list
  of a collection field holds \<^verbatim>\<open>nil\<close>.
\<close>

definition field_ids_present :: "'a bval \<Rightarrow> bool" where
  "field_ids_present v \<longleftrightarrow> Scalar SNil \<notin> set (fst (scan_dr (asDoc v) [] []))"

definition entry_ids_present :: "'a entry \<Rightarrow> bool" where
  "entry_ids_present e \<longleftrightarrow> list_all (\<lambda>f. field_ids_present (snd f)) (tl e)"

text \<open>
  The states the dispatcher goroutine goes through. \<^verbatim>\<open>loop\<close> starts from the
  new watcher with the \<^verbatim>\<open>lastId\<close> that \<^verbatim>\<open>initLastId\<close> read, on any runtime, and changes the
  state in four ways only: it resets \<^verbatim>\<open>next\<close> and \<^verbatim>\<open>syncDone\<close> before a sync
  pass, it runs \<^verbatim>\<open>sync\<close>, it runs \<^verbatim>\<open>handle\<close> on a request, and it runs
  \<^verbatim>\<open>flush\<close>, whose \<^verbatim>\<open>select\<close> follows some schedule. The logs considered are
  those all of whose document ids are present.
\<close>

inductive reachable :: "('a, 'c, 'd) watcher \<Rightarrow> bool" where
  new: "reachable (New grow lid)"
| tick: "reachable w \<Longrightarrow> reachable (w\<lparr>nextNow := False, syncDone := []\<rparr>)"
| synced: "reachable w \<Longrightarrow> list_all entry_ids_present entries \<Longrightarrow>
           sync w entries iter_err = Inr w' \<Longrightarrow> reachable w'"
| handled: "reachable w \<Longrightarrow> handle rq w = Inr w' \<Longrightarrow> reachable w'"
| flushed: "reachable w \<Longrightarrow> flush w sched = (oc, w', out) \<Longrightarrow> reachable w'"

text \<open>The registry holds no collection key.\<close>

definition documents_only :: "('a, 'c, 'd) watcher \<Rightarrow> bool" where
  "documents_only w \<longleftrightarrow> (\<forall>cn. current w \<lparr>key_c = cn, key_id = SNil\<rparr> = None)"

subsection \<open>Example data\<close>

text \<open>
  The capacities the Go runtime gives the request queue on its first two
  moves: one element, then two. The examples move the queue no further, and
  use this function for no other capacity.
\<close>

definition doubling :: "nat \<Rightarrow> nat" where
  "doubling cap = (if cap = 0 then 1 else 2 * cap)"

definition users7 :: "nat watchKey" where
  "users7 = \<lparr>key_c = ''users'', key_id = SInt64 7\<rparr>"

text \<open>A watcher that has observed revno 5 for document 7 of \<^verbatim>\<open>users\<close>.\<close>

definition knows_users7 :: "(nat, nat, nat) watcher" where
  "knows_users7 = (New doubling (Scalar SNil))\<lparr>current := [users7 \<mapsto> 5]\<rparr>"

text \<open>The same watcher with channel 1 attached to that document.\<close>

definition watching_users7 :: "(nat, nat, nat) watcher" where
  "watching_users7 = knows_users7\<lparr>watches := (\<lambda>_. [])(users7 := [\<lparr>ch = Some 1, revno = 5\<rparr>])\<rparr>"

definition apps_all :: "nat watchKey" where
  "apps_all = \<lparr>key_c = ''apps'', key_id = SNil\<rparr>"

definition apps_doc :: "nat \<Rightarrow> nat watchKey" where
  "apps_doc n = \<lparr>key_c = ''apps'', key_id = SOther n\<rparr>"

text \<open>The log entry \<^verbatim>\<open>{c="apps", d=[1,2,1], r=[10,11,12]}\<close>.\<close>

definition apps_entry :: "nat entry" where
  "apps_entry =
     [(''_id'', Scalar (SOther 100)),
      (''apps'', BDoc [(''d'', BArr [Scalar (SOther 1), Scalar (SOther 2), Scalar (SOther 1)]),
                       (''r'', BArr [Scalar (SInt64 10), Scalar (SInt64 11), Scalar (SInt64 12)])])]"

text \<open>A log entry with id \<open>n\<close> for document 1 of \<^verbatim>\<open>apps\<close> alone, with the revno value \<open>rv\<close>.\<close>

definition apps1_entry :: "nat \<Rightarrow> nat bval \<Rightarrow> nat entry" where
  "apps1_entry n rv =
     [(''_id'', Scalar (SOther n)),
      (''apps'', BDoc [(''d'', BArr [Scalar (SOther 1)]), (''r'', BArr [rv])])]"

text \<open>A new watcher after \<^verbatim>\<open>WatchCollection("apps", ch)\<close> with channel 1.\<close>

definition watching_apps :: "(nat, nat, nat) watcher" where
  "watching_apps =
     (New doubling (Scalar SNil))\<lparr>watches := (\<lambda>_. [])(apps_all := [\<lparr>ch = Some 1, revno = 0\<rparr>])\<rparr>"

text \<open>
  A watcher that knows revno 5 for document 7 of \<^verbatim>\<open>users\<close>, with two watches
  on the document, declared at revno 5 and \<open>-1\<close>, and one on the collection.
\<close>

definition users7_subscribers :: "(nat, nat, nat) watcher" where
  "users7_subscribers =
     knows_users7\<lparr>watches := (\<lambda>_. [])
       (users7 := [\<lparr>ch = Some 1, revno = 5\<rparr>, \<lparr>ch = Some 2, revno = -1\<rparr>],
        \<lparr>key_c = ''users'', key_id = SNil\<rparr> := [\<lparr>ch = Some 3, revno = 0\<rparr>])\<rparr>"

text \<open>
  A watcher with three sync-events queued, the second one cleared, and one
  request-event.
\<close>

definition pending :: "(nat, nat, nat) watcher" where
  "pending =
     knows_users7\<lparr>
       syncEvents := [\<lparr>e_ch = Some 1, e_key = apps_doc 1, e_revno = 12\<rparr>,
                      \<lparr>e_ch = None, e_key = apps_doc 2, e_revno = 11\<rparr>,
                      \<lparr>e_ch = Some 2, e_key = apps_doc 3, e_revno = 4\<rparr>],
       requestEvents := [\<lparr>e_ch = Some 3, e_key = users7, e_revno = 5\<rparr>],
       requestCap := 1\<rparr>"

text \<open>A log entry for \<^verbatim>\<open>apps\<close> whose only document id is \<^verbatim>\<open>nil\<close>.\<close>

definition nil_entry :: "nat entry" where
  "nil_entry =
     [(''_id'', Scalar (SOther 100)),
      (''apps'', BDoc [(''d'', BArr [Scalar SNil]), (''r'', BArr [Scalar (SInt64 5)])])]"

text \<open>
  A new watcher, whose registry is empty, after \<^verbatim>\<open>Watch("users", 7, 5, ch)\<close>
  with channel 1.
\<close>

definition watching_unknown_users7 :: "(nat, nat, nat) watcher" where
  "watching_unknown_users7 =
     (New doubling (Scalar SNil))\<lparr>watches := (\<lambda>_. [])(users7 := [\<lparr>ch = Some 1, revno = 5\<rparr>])\<rparr>"

text \<open>A log entry that gives document 7 of \<^verbatim>\<open>users\<close> the revno \<open>rv\<close>.\<close>

definition users7_entry :: "int \<Rightarrow> nat entry" where
  "users7_entry rv =
     [(''_id'', Scalar (SOther 100)),
      (''users'', BDoc [(''d'', BArr [Scalar (SInt64 7)]), (''r'', BArr [Scalar (SInt64 rv)])])]"

text \<open>
  A watcher with one sync-event queued for each of two document watches.
\<close>

definition two_pending :: "(nat, nat, nat) watcher" where
  "two_pending =
     (New doubling (Scalar SNil))\<lparr>
       watches := (\<lambda>_. [])(apps_doc 1 := [\<lparr>ch = Some 1, revno = 12\<rparr>],
                          apps_doc 2 := [\<lparr>ch = Some 2, revno = 11\<rparr>]),
       syncEvents := [\<lparr>e_ch = Some 1, e_key = apps_doc 1, e_revno = 12\<rparr>,
                      \<lparr>e_ch = Some 2, e_key = apps_doc 2, e_revno = 11\<rparr>]\<rparr>"

section \<open>Properties of request handling\<close>

lemma find_ch_None: "find_ch c ws = None \<longleftrightarrow> (\<forall>i \<in> set ws. ch i \<noteq> c)"
  by (induction ws) auto

text \<open>
  C1. Handling \<^verbatim>\<open>reqWatch{key, subscriber}\<close> for a subscriber with channel \<open>c\<close>
  and declared revno \<open>k\<close>, whose channel is not yet attached to the key (the
  other case is the panic of C8): if the registry holds a value \<open>v\<close> for the
  key with \<open>v > k\<close>, or \<open>v = -1\<close> and \<open>k \<ge> 0\<close>, exactly the catch-up event
  \<open>(c, key, v)\<close> is appended to the request-event queue and the subscriber is
  appended to the key's list with its revno advanced to \<open>v\<close>. Otherwise, also
  when the key is not in the registry, the queue is unchanged and the
  subscriber is appended with revno \<open>k\<close>. Nothing else of the tables changes.
\<close>

theorem reqWatch_catch_up:
  assumes fresh: "\<forall>i \<in> set (watches w key). ch i \<noteq> c"
  shows "\<exists>w'. handle (ReqWatch key \<lparr>ch = c, revno = k\<rparr>) w = Inr w' \<and>
           (if \<exists>v. current w key = Some v \<and> (v > k \<or> v = -1 \<and> k \<ge> 0)
            then requestEvents w' =
                   requestEvents w @ [\<lparr>e_ch = c, e_key = key, e_revno = the (current w key)\<rparr>] \<and>
                 watches w' key = watches w key @ [\<lparr>ch = c, revno = the (current w key)\<rparr>]
            else requestEvents w' = requestEvents w \<and>
                 watches w' key = watches w key @ [\<lparr>ch = c, revno = k\<rparr>]) \<and>
           (\<forall>k'. k' \<noteq> key \<longrightarrow> watches w' k' = watches w k') \<and>
           syncEvents w' = syncEvents w \<and> current w' = current w"
  using fresh
  by (cases "current w key") (auto simp: newer_def append_request_def Let_def)

theorem reqWatch_catch_up_witness:
  "watches knows_users7 users7 = [] \<and>
   (\<exists>w'. handle (ReqWatch users7 \<lparr>ch = Some 1, revno = 3\<rparr>) knows_users7 = Inr w' \<and>
         requestEvents w' = [\<lparr>e_ch = Some 1, e_key = users7, e_revno = 5\<rparr>] \<and>
         watches w' users7 = [\<lparr>ch = Some 1, revno = 5\<rparr>])"
  using reqWatch_catch_up [of knows_users7 users7 "Some 1" 3]
  by (simp add: knows_users7_def New_def newer_def append_request_def Let_def)

text \<open>
  C8. Handling a \<^verbatim>\<open>reqWatch\<close> whose channel already appears in the list of the
  same key panics, whatever the key (a document's or a collection's) and the
  declared revno.
\<close>

theorem reqWatch_duplicate_panics:
  assumes "\<exists>i \<in> set (watches w key). ch i = ch info"
  shows "handle (ReqWatch key info) w = Inl PanicDupChannel"
  using assms by simp

theorem reqWatch_duplicate_panics_witness:
  "(\<exists>i \<in> set (watches watching_users7 users7). ch i = ch \<lparr>ch = Some 1, revno = 0\<rparr>) \<and>
   handle (ReqWatch users7 \<lparr>ch = Some 1, revno = 0\<rparr>) watching_users7 = Inl PanicDupChannel"
  using reqWatch_duplicate_panics [of watching_users7 users7 "\<lparr>ch = Some 1, revno = 0\<rparr>"]
  by (simp add: watching_users7_def)

subsection \<open>Detaching a subscriber\<close>

text \<open>
  What \<^verbatim>\<open>reqUnwatch\<close> achieves in the tables: with the channels of a key's
  records distinct, as the duplicate check of \<^verbatim>\<open>reqWatch\<close> keeps them, no
  record of the key holds the channel afterwards, and no event in either
  queue holds both the key and the channel.
\<close>

lemma find_ch_Some:
  "find_ch c ws = Some i \<Longrightarrow> i < length ws \<and> ch (ws ! i) = c"
proof (induction ws arbitrary: i)
  case Nil
  then show ?case by simp
next
  case (Cons x xs)
  show ?case
  proof (cases "ch x = c")
    case True
    with Cons.prems show ?thesis by simp
  next
    case False
    with Cons.prems obtain j where "find_ch c xs = Some j" "i = Suc j" by auto
    with Cons.IH [of j] show ?thesis by simp
  qed
qed

lemma detach_removes:
  assumes "distinct (map ch ws)"
  shows "\<forall>x \<in> set (detach c ws). ch x \<noteq> c"
proof (cases "find_ch c ws")
  case None
  then have "\<forall>x \<in> set ws. ch x \<noteq> c" by (simp add: find_ch_None)
  moreover from None have "detach c ws = ws" by (simp add: detach_def)
  ultimately show ?thesis by simp
next
  case (Some i)
  from find_ch_Some [OF Some] have i: "i < length ws" and ci: "ch (ws ! i) = c" by simp_all
  let ?n = "length ws"
  let ?us = "ws[i := ws ! (?n - 1)]"
  have other: "ch (ws ! j) \<noteq> c" if "j < ?n" "j \<noteq> i" for j
  proof
    assume "ch (ws ! j) = c"
    with ci that(1) i have "map ch ws ! j = map ch ws ! i" by simp
    moreover from that(1) i have "j < length (map ch ws)" "i < length (map ch ws)" by simp_all
    ultimately have "j = i" using nth_eq_iff_index_eq [OF assms] by blast
    with that(2) show False by simp
  qed
  show ?thesis
  proof
    fix x assume "x \<in> set (detach c ws)"
    with Some have "x \<in> set (butlast ?us)" by (simp add: detach_def)
    then obtain k where k: "k < length (butlast ?us)" and x: "x = butlast ?us ! k"
      unfolding in_set_conv_nth by blast
    from k have k': "k < ?n - 1" by simp
    with x have xk: "x = ?us ! k" by (simp add: nth_butlast)
    show "ch x \<noteq> c"
    proof (cases "k = i")
      case True
      with xk i have "x = ws ! (?n - 1)" by simp
      moreover from True k' have "?n - 1 \<noteq> i" "?n - 1 < ?n" by simp_all
      ultimately show ?thesis using other by simp
    next
      case False
      with xk have "x = ws ! k" by simp
      with False k' other show ?thesis by simp
    qed
  qed
qed

lemma tombstone_clears:
  "\<not> (e_key (tombstone key (Some c) e) = key \<and> e_ch (tombstone key (Some c) e) = Some c)"
proof (cases "e_key e = key \<and> e_ch e = Some c")
  case True
  then have "tombstone key (Some c) e = e\<lparr>e_ch := None\<rparr>" unfolding tombstone_def by simp
  then show ?thesis by simp
next
  case False
  then have "tombstone key (Some c) e = e" unfolding tombstone_def by simp
  with False show ?thesis by simp
qed

lemma unwatch_detaches_and_clears:
  assumes "distinct (map ch (watches w key))"
  shows "\<exists>w'. handle (ReqUnwatch key (Some c)) w = Inr w' \<and>
           (\<forall>x \<in> set (watches w' key). ch x \<noteq> Some c) \<and>
           (\<forall>e \<in> set (requestEvents w' @ syncEvents w').
              \<not> (e_key e = key \<and> e_ch e = Some c))"
proof -
  have "\<forall>e \<in> set (map (tombstone key (Some c)) es). \<not> (e_key e = key \<and> e_ch e = Some c)"
    for es
    using tombstone_clears [of key c] by (induction es) simp_all
  with detach_removes [OF assms, of "Some c"] show ?thesis by (simp add: ball_Un)
qed

section \<open>Properties of the sync pass\<close>

lemmas sync_eval =
  sync_def New_def asDoc_def asArr_def sync_doc_def current_at_def canonical_def observe_def
  Let_def iface_eq_def

lemma notify_docs_map:
  "notify_docs key v infos =
     (map (\<lambda>i. if v > revno i \<or> v < 0 \<and> revno i \<ge> 0 then i\<lparr>revno := v\<rparr> else i) infos,
      map (\<lambda>i. \<lparr>e_ch = ch i, e_key = key, e_revno = v\<rparr>)
          (filter (\<lambda>i. v > revno i \<or> v < 0 \<and> revno i \<ge> 0) infos))"
  by (induction infos) (auto simp: Let_def)

lemma canonical_neg: "canonical rv < 0 \<longleftrightarrow> canonical rv = -1"
  by (simp add: canonical_def)

text \<open>
  C2. The claim reads a key that is absent from the registry as revno \<open>-1\<close>.
  The sync pass compares with \<^verbatim>\<open>w.current[key]\<close>, which is \<open>0\<close> for an absent
  key. On a new watcher with a watch on document 7 of \<^verbatim>\<open>users\<close> declared at
  revno 5, the registry has no value for the document; a log entry that
  removes the document (revno \<open>-1\<close>) stores \<open>-1\<close> and queues the event for the
  watch, where the claim has the triple skipped; a log entry with revno \<open>0\<close>
  is skipped, where the claim has it stored and sent.
\<close>

theorem sync_absent_key_reads_zero:
  "handle (ReqWatch users7 \<lparr>ch = Some 1, revno = 5\<rparr>) (New doubling (Scalar SNil))
     = Inr watching_unknown_users7 \<and>
   current watching_unknown_users7 users7 = None \<and>
   (\<exists>w'. sync watching_unknown_users7 [users7_entry (-1)] False = Inr w' \<and>
         current w' users7 = Some (-1) \<and>
         syncEvents w' = [\<lparr>e_ch = Some 1, e_key = users7, e_revno = -1\<rparr>]) \<and>
   (\<exists>w'. sync watching_unknown_users7 [users7_entry 0] False = Inr w' \<and>
         current w' users7 = None \<and> syncEvents w' = [])"
  by (simp add: sync_eval watching_unknown_users7_def users7_entry_def users7_def)

text \<open>
  C2, as amended. During a sync pass, the first triple of the pass for a key
  is skipped, with no registry update and no event queued, if and only if
  the registry holds a value for the key and the canonical revno \<open>v\<close> equals
  it; this for every key that is in the registry, and for a key that is not
  when \<open>v\<close> is not \<open>0\<close>. A triple that is not skipped stores \<open>v\<close> and queues
  the events of C3. In particular a triple with canonical revno \<open>-1\<close> for a
  key never observed before stores \<open>-1\<close> and fires events.
\<close>

theorem sync_doc_skips_equal_revno:
  assumes key: "key = \<lparr>key_c = cn, key_id = s\<rparr>"
    and unseen: "key \<notin> seen"
    and v: "v = canonical rv"
    and known: "current w key \<noteq> None \<or> v \<noteq> 0"
  shows "(sync_doc cn (Scalar s) (Scalar (SInt64 rv)) (seen, w) = Inr (insert key seen, w)
            \<longleftrightarrow> current w key = Some v) \<and>
         (current w key \<noteq> Some v \<longrightarrow>
            (\<exists>w'. sync_doc cn (Scalar s) (Scalar (SInt64 rv)) (seen, w) = Inr (insert key seen, w') \<and>
                   current w' = (current w)(key \<mapsto> v) \<and>
                   syncEvents w' =
                     syncEvents w @
                     map (\<lambda>i. \<lparr>e_ch = ch i, e_key = key, e_revno = v\<rparr>)
                         (watches w \<lparr>key_c = cn, key_id = SNil\<rparr>) @
                     map (\<lambda>i. \<lparr>e_ch = ch i, e_key = key, e_revno = v\<rparr>)
                         (filter (\<lambda>i. v > revno i \<or> v = -1 \<and> revno i \<ge> 0) (watches w key))))"
proof (cases "current w key = Some v")
  case True
  with key unseen v show ?thesis
    by (simp add: sync_doc_def current_at_def Let_def)
next
  case False
  with known have differs: "current_at w key \<noteq> v"
    by (cases "current w key") (auto simp: current_at_def)
  have "current (observe key v w) key = Some v"
    by (simp add: observe_def Let_def split: prod.splits)
  with False have changed: "observe key v w \<noteq> w" by auto
  from key unseen v differs
  have result: "sync_doc cn (Scalar s) (Scalar (SInt64 rv)) (seen, w)
                  = Inr (insert key seen, observe key v w)"
    by (simp add: sync_doc_def Let_def)
  have effect: "current (observe key v w) = (current w)(key \<mapsto> v) \<and>
        syncEvents (observe key v w) =
          syncEvents w @
          map (\<lambda>i. \<lparr>e_ch = ch i, e_key = key, e_revno = v\<rparr>)
              (watches w \<lparr>key_c = cn, key_id = SNil\<rparr>) @
          map (\<lambda>i. \<lparr>e_ch = ch i, e_key = key, e_revno = v\<rparr>)
              (filter (\<lambda>i. v > revno i \<or> v = -1 \<and> revno i \<ge> 0) (watches w key))"
    using key v by (simp add: observe_def Let_def notify_docs_map canonical_neg)
  from False result changed effect show ?thesis by simp
qed

theorem sync_doc_skips_equal_revno_witness:
  "sync_doc ''users'' (Scalar (SInt64 7)) (Scalar (SInt64 5)) ({}, users7_subscribers)
     = Inr ({users7}, users7_subscribers) \<and>
   (\<exists>w'. sync_doc ''users'' (Scalar (SInt64 7)) (Scalar (SInt64 (-4)))
            ({}, watching_unknown_users7) = Inr ({users7}, w') \<and>
          current w' users7 = Some (-1) \<and>
          syncEvents w' = [\<lparr>e_ch = Some 1, e_key = users7, e_revno = -1\<rparr>])"
proof
  from sync_doc_skips_equal_revno [of users7 "''users''" "SInt64 7" "{}" 5 5 users7_subscribers]
  show "sync_doc ''users'' (Scalar (SInt64 7)) (Scalar (SInt64 5)) ({}, users7_subscribers)
     = Inr ({users7}, users7_subscribers)"
    by (simp add: users7_def users7_subscribers_def knows_users7_def canonical_def)
  from sync_doc_skips_equal_revno [of users7 "''users''" "SInt64 7" "{}" "-1" "-4"
      watching_unknown_users7]
  show "\<exists>w'. sync_doc ''users'' (Scalar (SInt64 7)) (Scalar (SInt64 (-4)))
            ({}, watching_unknown_users7) = Inr ({users7}, w') \<and>
          current w' users7 = Some (-1) \<and>
          syncEvents w' = [\<lparr>e_ch = Some 1, e_key = users7, e_revno = -1\<rparr>]"
    by (auto simp: users7_def watching_unknown_users7_def New_def canonical_def)
qed

text \<open>
  C3. When the sync pass meets, for the first time in the pass, a document
  whose canonical revno \<open>v\<close> differs from the registry's value, it stores \<open>v\<close>
  in the registry and queues, after what is already queued: one event
  \<open>(ch, key, v)\<close> for every per-collection watch of the collection, whatever
  its revno; then one event \<open>(ch, key, v)\<close> for every record \<open>(ch, k)\<close> of the
  key with \<open>v > k\<close>, or \<open>v = -1\<close> and \<open>k \<ge> 0\<close>, in the order of the list. Exactly
  these records have their revno advanced to \<open>v\<close>; the others are unchanged,
  and so are the lists of all other keys.
\<close>

theorem sync_doc_notifies:
  assumes key: "key = \<lparr>key_c = cn, key_id = s\<rparr>"
    and unseen: "key \<notin> seen"
    and v: "v = canonical rv"
    and differs: "current_at w key \<noteq> v"
  shows "\<exists>w'. sync_doc cn (Scalar s) (Scalar (SInt64 rv)) (seen, w) = Inr (insert key seen, w') \<and>
           current w' = (current w)(key \<mapsto> v) \<and>
           watches w' key =
             map (\<lambda>i. if v > revno i \<or> v = -1 \<and> revno i \<ge> 0 then i\<lparr>revno := v\<rparr> else i)
                 (watches w key) \<and>
           (\<forall>k'. k' \<noteq> key \<longrightarrow> watches w' k' = watches w k') \<and>
           syncEvents w' =
             syncEvents w @
             map (\<lambda>i. \<lparr>e_ch = ch i, e_key = key, e_revno = v\<rparr>)
                 (watches w \<lparr>key_c = cn, key_id = SNil\<rparr>) @
             map (\<lambda>i. \<lparr>e_ch = ch i, e_key = key, e_revno = v\<rparr>)
                 (filter (\<lambda>i. v > revno i \<or> v = -1 \<and> revno i \<ge> 0) (watches w key)) \<and>
           requestEvents w' = requestEvents w"
  using assms
  by (simp add: sync_doc_def observe_def Let_def notify_docs_map canonical_neg)

theorem sync_doc_notifies_witness:
  "\<exists>w'. sync_doc ''users'' (Scalar (SInt64 7)) (Scalar (SInt64 (-2))) ({}, users7_subscribers)
           = Inr ({users7}, w') \<and>
         current w' users7 = Some (-1) \<and>
         watches w' users7 = [\<lparr>ch = Some 1, revno = -1\<rparr>, \<lparr>ch = Some 2, revno = -1\<rparr>] \<and>
         syncEvents w' = [\<lparr>e_ch = Some 3, e_key = users7, e_revno = -1\<rparr>,
                          \<lparr>e_ch = Some 1, e_key = users7, e_revno = -1\<rparr>]"
  using sync_doc_notifies [of users7 "''users''" "SInt64 7" "{}" "-1" "-2" users7_subscribers]
  by (auto simp: users7_def users7_subscribers_def current_at_def canonical_def knows_users7_def
        New_def)

text \<open>
  C7. The claim, that the sync pass treats an empty change-log entry as
  fatal, fails: a pass over a log that holds one empty document ends without
  an error and leaves the watcher as it was.
\<close>

theorem sync_empty_entry_not_fatal:
  "sync (New doubling (Scalar SNil) :: (nat, nat, nat) watcher) [[]] False = Inr (New doubling (Scalar SNil))"
  by (simp add: sync_def)

lemma sync_entries_skips_empty:
  "sync_entries lid iter_err (pre @ [] # es) first sw = sync_entries lid iter_err (pre @ es) first sw"
proof (induction pre arbitrary: first sw)
  case Nil
  show ?case by simp
next
  case (Cons e pre)
  show ?case
  proof (cases e)
    case Nil
    with Cons.IH show ?thesis by simp
  next
    case (Cons f cs)
    obtain name v where f: "f = (name, v)" by (cases f)
    show ?thesis
      unfolding Cons f append_Cons sync_entries.simps Let_def
      by (simp add: Cons.IH split: sum.splits bool.splits)
  qed
qed

text \<open>
  C7, as amended. The sync pass does not treat an empty change-log entry as
  fatal: it skips the entry and goes on with the next one, with the watcher,
  the seen set and the pending update of \<^verbatim>\<open>lastId\<close> as they were. This for
  an empty entry anywhere in the log: after any entries \<open>pre\<close>, whatever the
  loop has reached (\<open>first\<close>, the seen set and the watcher in \<open>sw\<close>), the
  pass over the log with the empty entry is the pass over the log without it.
\<close>

theorem sync_skips_empty_entry:
  "sync_entries lid iter_err (pre @ [] # es) first sw
     = sync_entries lid iter_err (pre @ es) first sw \<and>
   sync w (pre @ [] # es) iter_err = sync w (pre @ es) iter_err"
  by (simp add: sync_def sync_entries_skips_empty)

subsection \<open>A key already seen keeps its registry value for the rest of the pass\<close>

lemma sync_doc_keeps:
  assumes "sync_doc cn di ri (seen, w) = Inr (seen', w')" and "key \<in> seen"
  shows "key \<in> seen' \<and> current w' key = current w key"
  using assms
  by (auto simp: sync_doc_def observe_def Let_def
           split: bval.splits scalar.splits if_splits prod.splits)

lemma sync_docs_keeps:
  assumes "sync_docs cn d r n (seen, w) = Inr (seen', w')" and "key \<in> seen"
  shows "key \<in> seen' \<and> current w' key = current w key"
  using assms
proof (induction n arbitrary: seen w)
  case 0
  then show ?case by simp
next
  case (Suc n)
  from Suc.prems(1) obtain seen1 w1 where
    step: "sync_doc cn (d ! n) (r ! n) (seen, w) = Inr (seen1, w1)" and
    rest: "sync_docs cn d r n (seen1, w1) = Inr (seen', w')"
    by (auto split: sum.splits)
  from sync_doc_keeps [OF step Suc.prems(2)] Suc.IH [OF rest] show ?case by simp
qed

lemma sync_fields_keeps:
  assumes "sync_fields cs (seen, w) = Inr (seen', w')" and "key \<in> seen"
  shows "key \<in> seen' \<and> current w' key = current w key"
  using assms
proof (induction cs arbitrary: seen w)
  case Nil
  then show ?case by simp
next
  case (Cons c cs)
  obtain cn v where c: "c = (cn, v)" by (cases c)
  obtain d r where dr: "scan_dr (asDoc v) [] [] = (d, r)" by (cases "scan_dr (asDoc v) [] []")
  show ?case
  proof (cases "length d = 0 \<or> length d \<noteq> length r")
    case True
    with Cons.prems c dr have "sync_fields cs (seen, w) = Inr (seen', w')" by simp
    from Cons.IH [OF this Cons.prems(2)] show ?thesis .
  next
    case False
    with Cons.prems(1) c dr obtain seen1 w1 where
      step: "sync_docs cn d r (length d) (seen, w) = Inr (seen1, w1)" and
      rest: "sync_fields cs (seen1, w1) = Inr (seen', w')"
      by (auto split: sum.splits)
    from sync_docs_keeps [OF step Cons.prems(2)] Cons.IH [OF rest] show ?thesis by simp
  qed
qed

text \<open>One round of the loop over the log, for an entry that starts with \<^verbatim>\<open>_id\<close>.\<close>

lemma sync_entries_id:
  "sync_entries lid iter_err (((''_id'', v) # cs) # es) first (seen, w) =
     (case iface_eq v lid of
        Inl p \<Rightarrow> Inl p
      | Inr True \<Rightarrow> Inr (if first then w\<lparr>lastId := v\<rparr> else w)
      | Inr False \<Rightarrow>
          (case sync_fields cs (seen, if first then w\<lparr>lastId := v\<rparr> else w) of
             Inl p \<Rightarrow> Inl p
           | Inr sw' \<Rightarrow> sync_entries lid iter_err es False sw'))"
  by (simp add: Let_def split: sum.splits bool.splits)

lemma sync_entries_keeps:
  assumes "sync_entries lid err es first (seen, w) = Inr w'" and "key \<in> seen"
  shows "current w' key = current w key"
  using assms
proof (induction es arbitrary: first seen w)
  case Nil
  then show ?case by (simp split: if_splits)
next
  case (Cons e es)
  show ?case
  proof (cases e)
    case Nil
    with Cons.prems have "sync_entries lid err es first (seen, w) = Inr w'" by simp
    from Cons.IH [OF this Cons.prems(2)] show ?thesis .
  next
    case (Cons f cs)
    obtain name v where f: "f = (name, v)" by (cases f)
    define w1 where "w1 = (if first then w\<lparr>lastId := v\<rparr> else w)"
    have cur: "current w1 = current w" by (simp add: w1_def)
    from Cons.prems(1) Cons f have name: "name = ''_id''" by (simp split: if_splits)
    note unfold = sync_entries_id [of lid err v cs es first seen w, folded w1_def]
    from Cons.prems(1) Cons f name unfold obtain b where eq: "iface_eq v lid = Inr b"
      by (cases "iface_eq v lid") simp_all
    show ?thesis
    proof (cases b)
      case True
      with Cons.prems(1) Cons f name unfold eq have "w' = w1" by simp
      with cur show ?thesis by simp
    next
      case False
      with Cons.prems(1) Cons f name unfold eq obtain seen1 w2 where
        step: "sync_fields cs (seen, w1) = Inr (seen1, w2)" and
        rest: "sync_entries lid err es False (seen1, w2) = Inr w'"
        by (cases "sync_fields cs (seen, w1)") auto
      from sync_fields_keeps [OF step Cons.prems(2)]
      have k: "key \<in> seen1" and c: "current w2 key = current w1 key"
        by simp_all
      from Cons.IH [OF rest k] c cur show ?thesis by simp
    qed
  qed
qed

text \<open>
  C10. When the revno of a document fails the \<^verbatim>\<open>int64\<close> type check, its key
  is in the seen set already: the watcher is left as it was and the key is
  marked seen. Every later occurrence of the key in the pass is then
  skipped, whatever its revno, and whatever the rest of the pass does (the
  documents before index \<open>i\<close> of this field, the entry's remaining fields
  \<open>cs\<close>, the older entries \<open>es\<close>), the registry keeps its value for the key
  until the pass is over.
\<close>

theorem sync_bad_revno_hides_key:
  assumes key: "key = \<lparr>key_c = cn, key_id = s\<rparr>"
    and unseen: "key \<notin> seen"
    and di: "d ! i = Scalar s"
    and bad: "\<not> (\<exists>rv. r ! i = Scalar (SInt64 rv))"
  shows "sync_doc cn (d ! i) (r ! i) (seen, w) = Inr (insert key seen, w) \<and>
         (\<forall>ri' seen' w'. key \<in> seen' \<longrightarrow>
            sync_doc cn (Scalar s) ri' (seen', w') = Inr (seen', (w' :: ('a, 'c, 'd) watcher))) \<and>
         (\<forall>seen1 w1 seen2 w2 w3.
            sync_docs cn d r (Suc i) (seen, w) = Inr (seen1, w1) \<longrightarrow>
            sync_fields cs (seen1, w1) = Inr (seen2, w2) \<longrightarrow>
            sync_entries lid iter_err es False (seen2, w2) = Inr w3 \<longrightarrow>
            current w3 key = current w key)"
proof (intro conjI allI impI)
  show first: "sync_doc cn (d ! i) (r ! i) (seen, w) = Inr (insert key seen, w)"
    using key unseen di bad
    by (auto simp: sync_doc_def Let_def split: bval.splits scalar.splits)
  show "sync_doc cn (Scalar s) ri' (seen', w') = Inr (seen', w')" if "key \<in> seen'"
    for ri' seen' and w' :: "('a, 'c, 'd) watcher"
    using that key by (simp add: sync_doc_def Let_def)
  show "current w3 key = current w key"
    if docs: "sync_docs cn d r (Suc i) (seen, w) = Inr (seen1, w1)"
      and fields: "sync_fields cs (seen1, w1) = Inr (seen2, w2)"
      and entries: "sync_entries lid iter_err es False (seen2, w2) = Inr w3"
    for seen1 w1 seen2 w2 w3
  proof -
    from docs first have rest: "sync_docs cn d r i (insert key seen, w) = Inr (seen1, w1)"
      by simp
    have "key \<in> insert key seen" by simp
    from sync_docs_keeps [OF rest this] have 1: "key \<in> seen1" "current w1 key = current w key"
      by simp_all
    from sync_fields_keeps [OF fields 1(1)] have 2: "key \<in> seen2" "current w2 key = current w1 key"
      by simp_all
    from sync_entries_keeps [OF entries 2(1)] 1(2) 2(2) show ?thesis by simp
  qed
qed

theorem sync_bad_revno_hides_key_witness:
  "sync_doc ''apps'' (Scalar (SOther 1)) (Scalar (SOther 7)) ({}, watching_apps)
     = Inr ({apps_doc 1}, watching_apps) \<and>
   (\<exists>w3. sync watching_apps
            [apps1_entry 101 (Scalar (SOther 7)), apps1_entry 100 (Scalar (SInt64 10))] False
            = Inr w3 \<and>
          current w3 (apps_doc 1) = None \<and> syncEvents w3 = [])"
proof
  from sync_bad_revno_hides_key [where key = "apps_doc 1" and cn = "''apps''" and s = "SOther 1"
      and seen = "{}" and d = "[Scalar (SOther 1)]" and i = 0 and r = "[Scalar (SOther 7)]"
      and w = watching_apps and cs = "[]" and lid = "Scalar SNil" and iter_err = False
      and es = "[]", THEN conjunct1]
  show "sync_doc ''apps'' (Scalar (SOther 1)) (Scalar (SOther 7)) ({}, watching_apps)
          = Inr ({apps_doc 1}, watching_apps)"
    by (simp add: apps_doc_def)
  show "\<exists>w3. sync watching_apps
            [apps1_entry 101 (Scalar (SOther 7)), apps1_entry 100 (Scalar (SInt64 10))] False
            = Inr w3 \<and>
          current w3 (apps_doc 1) = None \<and> syncEvents w3 = []"
    by (simp add: sync_eval watching_apps_def apps1_entry_def apps_all_def apps_doc_def)
qed


section \<open>The order of a sync pass\<close>

lemma first_wins_append:
  "first_wins (ts @ us) sw =
     (case first_wins ts sw of Inl p \<Rightarrow> Inl p | Inr sw' \<Rightarrow> first_wins us sw')"
  by (induction ts arbitrary: sw) (auto split: sum.splits)

lemma sync_docs_first_wins:
  assumes "n \<le> length d" and "length d = length r"
  shows "sync_docs cn d r n sw =
           first_wins (map (\<lambda>(di, ri). (cn, di, ri)) (rev (take n (zip d r)))) sw"
  using assms(1)
proof (induction n arbitrary: sw)
  case 0
  show ?case by simp
next
  case (Suc n)
  then have n: "n < length (zip d r)" and le: "n \<le> length d" using assms(2) by simp_all
  have "take (Suc n) (zip d r) = take n (zip d r) @ [(d ! n, r ! n)]"
    using n by (simp add: take_Suc_conv_app_nth)
  with Suc.IH [OF le] show ?case by (simp split: sum.splits)
qed

lemma sync_fields_first_wins:
  "sync_fields cs sw = first_wins (concat (map field_triples cs)) sw"
proof (induction cs arbitrary: sw)
  case Nil
  show ?case by simp
next
  case (Cons c cs)
  obtain cn v where c: "c = (cn, v)" by (cases c)
  obtain d r where dr: "scan_dr (asDoc v) [] [] = (d, r)" by (cases "scan_dr (asDoc v) [] []")
  show ?case
  proof (cases "length d = 0 \<or> length d \<noteq> length r")
    case True
    with c dr Cons.IH show ?thesis by (simp add: field_triples_def)
  next
    case False
    then have len: "length d = length r" by simp
    from sync_docs_first_wins [OF le_refl len, of cn]
    have "sync_docs cn d r (length d) sw =
            first_wins (map (\<lambda>(di, ri). (cn, di, ri)) (rev (zip d r))) sw"
      using len by simp
    with False c dr Cons.IH show ?thesis
      by (simp add: field_triples_def first_wins_append split: sum.splits)
  qed
qed

lemma sync_doc_lastId:
  "sync_doc cn di ri (seen, w\<lparr>lastId := x\<rparr>) =
     (case sync_doc cn di ri (seen, w) of
        Inl p \<Rightarrow> Inl p
      | Inr sw' \<Rightarrow> Inr (fst sw', (snd sw')\<lparr>lastId := x\<rparr>))"
  by (simp add: sync_doc_def current_at_def observe_def Let_def
           split: bval.splits scalar.splits prod.splits)

lemma first_wins_lastId:
  "first_wins ts (seen, w\<lparr>lastId := x\<rparr>) =
     (case first_wins ts (seen, w) of
        Inl p \<Rightarrow> Inl p
      | Inr sw' \<Rightarrow> Inr (fst sw', (snd sw')\<lparr>lastId := x\<rparr>))"
proof (induction ts arbitrary: seen w)
  case Nil
  show ?case by simp
next
  case (Cons t ts)
  obtain cn di ri where t: "t = (cn, di, ri)" by (cases t)
  show ?case
  proof (cases "sync_doc cn di ri (seen, w)")
    case (Inl p)
    with t show ?thesis by (simp add: sync_doc_lastId)
  next
    case (Inr sw')
    obtain seen' w' where sw': "sw' = (seen', w')" by (cases sw')
    with Inr t Cons.IH [of seen' w'] show ?thesis by (simp add: sync_doc_lastId)
  qed
qed


lemma iface_eq_Inr: "iface_eq a b = Inr x \<Longrightarrow> x = (a = b)"
  by (auto simp: iface_eq_def split: bval.splits)

lemma sync_entries_first_wins:
  assumes "list_all (plain_entry lid) es"
  shows "sync_entries lid False es first (seen, w) =
           (case first_wins (pass_triples lid es) (seen, w) of
              Inl p \<Rightarrow> Inl p
            | Inr sw' \<Rightarrow>
                Inr ((snd sw')\<lparr>lastId :=
                       (if first then (case newest_id es of None \<Rightarrow> lastId w | Some v \<Rightarrow> v)
                        else lastId w)\<rparr>))"
  using assms
proof (induction es arbitrary: first seen w)
  case Nil
  show ?case by (simp add: pass_triples_def)
next
  case (Cons e es)
  from Cons.prems have e_ok: "plain_entry lid e" and es_ok: "list_all (plain_entry lid) es"
    by simp_all
  show ?case
  proof (cases e)
    case Nil
    show ?thesis unfolding Nil using Cons.IH [OF es_ok, of first seen w]
      by (simp add: pass_triples_def split: sum.splits)
  next
    case (Cons f cs)
    obtain name v where f: "f = (name, v)" by (cases f)
    from e_ok Cons f have name: "name = ''_id''" and noPanic: "\<not> isl (iface_eq v lid)"
      by (simp_all add: plain_entry_def)
    from noPanic obtain b where eq: "iface_eq v lid = Inr b" by (cases "iface_eq v lid") simp_all
    from iface_eq_Inr [OF eq] have b: "b = (v = lid)" .
    define L where "L = (if first then v else lastId w)"
    have w1: "(if first then w\<lparr>lastId := v\<rparr> else w) = w\<lparr>lastId := L\<rparr>"
      by (simp add: L_def)
    note unfold = sync_entries_id [of lid False v cs es first seen w, unfolded w1]
    show ?thesis
    proof (cases "v = lid")
      case True
      with unfold eq b name show ?thesis unfolding Cons f
        by (simp add: pass_triples_def L_def split: sum.splits)
    next
      case False
      have here: "sync_fields cs (seen, w\<lparr>lastId := L\<rparr>) =
                    (case first_wins (entry_triples e) (seen, w) of
                       Inl p \<Rightarrow> Inl p
                     | Inr sw' \<Rightarrow> Inr (fst sw', (snd sw')\<lparr>lastId := L\<rparr>))"
        using Cons by (simp add: sync_fields_first_wins entry_triples_def first_wins_lastId)
      have split: "pass_triples lid (e # es) = entry_triples e @ pass_triples lid es"
        using False Cons f by (simp add: pass_triples_def)
      show ?thesis
      proof (cases "first_wins (entry_triples e) (seen, w)")
        case (Inl p)
        with unfold eq b False here split [unfolded Cons f] name show ?thesis unfolding Cons f
          by (simp add: first_wins_append split: sum.splits)
      next
        case (Inr sw0)
        obtain s0 w0 where sw0: "sw0 = (s0, w0)" by (cases sw0)
        from Cons.IH [OF es_ok, of False s0 "w0\<lparr>lastId := L\<rparr>"]
        have rest: "sync_entries lid False es False (s0, w0\<lparr>lastId := L\<rparr>) =
                (case first_wins (pass_triples lid es) (s0, w0) of
                   Inl p \<Rightarrow> Inl p
                 | Inr sw' \<Rightarrow> Inr ((snd sw')\<lparr>lastId := L\<rparr>))"
          by (simp add: first_wins_lastId split: sum.splits)
        from unfold eq b False here Inr sw0 rest split [unfolded Cons f] name
        show ?thesis unfolding Cons f
          by (simp add: first_wins_append L_def split: sum.splits)
      qed
    qed
  qed
qed

lemma observe_events:
  "\<exists>new. syncEvents (observe k v w) = syncEvents w @ new \<and>
         (\<forall>e \<in> set new. e_key e = k \<and> e_revno e = v)"
  by (auto simp: observe_def Let_def notify_docs_map)

lemma observe_current: "current (observe k v w) = (current w)(k \<mapsto> v)"
  by (simp add: observe_def Let_def split: prod.splits)

text \<open>What one triple does not touch.\<close>

lemma sync_doc_aside:
  assumes step: "sync_doc cn di ri (seen, w) = Inr (seen', w')"
    and aside: "key \<in> seen \<or> di \<noteq> Scalar (key_id key) \<or> cn \<noteq> key_c key"
  shows "(key \<in> seen' \<longleftrightarrow> key \<in> seen) \<and> current w' key = current w key \<and>
         filter (\<lambda>e. e_key e = key) (syncEvents w') = filter (\<lambda>e. e_key e = key) (syncEvents w)"
proof (cases di)
  case (Scalar s)
  let ?k = "\<lparr>key_c = cn, key_id = s\<rparr>"
  show ?thesis
  proof (cases "?k \<in> seen")
    case True
    with step Scalar show ?thesis by (auto simp: sync_doc_def Let_def)
  next
    case False
    with aside Scalar have ne: "?k \<noteq> key" by auto
    from step Scalar False have seen': "seen' = insert ?k seen"
      by (auto simp: sync_doc_def Let_def split: bval.splits scalar.splits if_splits)
    from step Scalar False have "w' = w \<or> (\<exists>v. w' = observe ?k v w)"
      by (auto simp: sync_doc_def Let_def split: bval.splits scalar.splits if_splits)
    then show ?thesis
    proof
      assume "w' = w"
      with seen' ne show ?thesis by auto
    next
      assume "\<exists>v. w' = observe ?k v w"
      then obtain v where w': "w' = observe ?k v w" ..
      from observe_events [of ?k v w] obtain new where
        new: "syncEvents w' = syncEvents w @ new" "\<forall>e \<in> set new. e_key e = ?k"
        unfolding w' by blast
      from new(2) ne have "filter (\<lambda>e. e_key e = key) new = []"
        by (auto simp: filter_empty_conv)
      with new(1) seen' ne show ?thesis by (auto simp: w' observe_current)
    qed
  qed
next
  case (BDoc x)
  with step show ?thesis by (simp add: sync_doc_def)
next
  case (BArr x)
  with step show ?thesis by (simp add: sync_doc_def)
qed

lemma first_wins_aside:
  assumes "first_wins ts (seen, w) = Inr (seen', w')"
    and "key \<in> seen \<or> (\<forall>t \<in> set ts. fst (snd t) \<noteq> Scalar (key_id key) \<or> fst t \<noteq> key_c key)"
  shows "(key \<in> seen' \<longleftrightarrow> key \<in> seen) \<and> current w' key = current w key \<and>
         filter (\<lambda>e. e_key e = key) (syncEvents w') = filter (\<lambda>e. e_key e = key) (syncEvents w)"
  using assms
proof (induction ts arbitrary: seen w)
  case Nil
  then show ?case by simp
next
  case (Cons t ts)
  obtain cn di ri where t: "t = (cn, di, ri)" by (cases t)
  from Cons.prems(1) t obtain seen1 w1 where
    step: "sync_doc cn di ri (seen, w) = Inr (seen1, w1)" and
    rest: "first_wins ts (seen1, w1) = Inr (seen', w')"
    by (auto split: sum.splits)
  from Cons.prems(2) t have here: "key \<in> seen \<or> di \<noteq> Scalar (key_id key) \<or> cn \<noteq> key_c key"
    by auto
  note a = sync_doc_aside [OF step here]
  from Cons.prems(2) a have later:
    "key \<in> seen1 \<or> (\<forall>t \<in> set ts. fst (snd t) \<noteq> Scalar (key_id key) \<or> fst t \<noteq> key_c key)"
    by auto
  from Cons.IH [OF rest later] a show ?case by simp
qed


lemma sync_doc_first:
  assumes "key = \<lparr>key_c = cn, key_id = s\<rparr>" and "key \<notin> seen"
  shows "\<exists>w'. sync_doc cn (Scalar s) (Scalar (SInt64 rv)) (seen, w) = Inr (insert key seen, w') \<and>
              current_at w' key = canonical rv"
  using assms
  by (simp add: sync_doc_def Let_def current_at_def observe_current)

lemma first_wins_first_occurrence:
  assumes run: "first_wins (pre @ (cn, Scalar s, Scalar (SInt64 rv)) # post) (seen, w) = Inr (seen', w')"
    and key: "key = \<lparr>key_c = cn, key_id = s\<rparr>"
    and unseen: "key \<notin> seen"
    and absent: "\<forall>t \<in> set pre. fst (snd t) \<noteq> Scalar s \<or> fst t \<noteq> cn"
  shows "\<exists>seen1 w1 w2.
           first_wins pre (seen, w) = Inr (seen1, w1) \<and> key \<notin> seen1 \<and>
           current w1 key = current w key \<and>
           filter (\<lambda>e. e_key e = key) (syncEvents w1) = filter (\<lambda>e. e_key e = key) (syncEvents w) \<and>
           sync_doc cn (Scalar s) (Scalar (SInt64 rv)) (seen1, w1) = Inr (insert key seen1, w2) \<and>
           current_at w2 key = canonical rv \<and>
           current w' key = current w2 key \<and>
           filter (\<lambda>e. e_key e = key) (syncEvents w') = filter (\<lambda>e. e_key e = key) (syncEvents w2)"
proof -
  from run obtain seen1 w1 where
    before: "first_wins pre (seen, w) = Inr (seen1, w1)" and
    from_here: "first_wins ((cn, Scalar s, Scalar (SInt64 rv)) # post) (seen1, w1) = Inr (seen', w')"
    by (auto simp: first_wins_append split: sum.splits)
  from absent key
  have "key \<in> seen \<or> (\<forall>t \<in> set pre. fst (snd t) \<noteq> Scalar (key_id key) \<or> fst t \<noteq> key_c key)"
    by simp
  from first_wins_aside [OF before this] unseen
  have 1: "key \<notin> seen1" "current w1 key = current w key"
    "filter (\<lambda>e. e_key e = key) (syncEvents w1) = filter (\<lambda>e. e_key e = key) (syncEvents w)"
    by simp_all
  from sync_doc_first [OF key 1(1), of rv w1] obtain w2 where
    step: "sync_doc cn (Scalar s) (Scalar (SInt64 rv)) (seen1, w1) = Inr (insert key seen1, w2)" and
    stored: "current_at w2 key = canonical rv"
    by blast
  from from_here step have after: "first_wins post (insert key seen1, w2) = Inr (seen', w')"
    by simp
  have "key \<in> insert key seen1 \<or>
        (\<forall>t \<in> set post. fst (snd t) \<noteq> Scalar (key_id key) \<or> fst t \<noteq> key_c key)"
    by simp
  from first_wins_aside [OF after this]
  have 2: "current w' key = current w2 key"
    "filter (\<lambda>e. e_key e = key) (syncEvents w') = filter (\<lambda>e. e_key e = key) (syncEvents w2)"
    by simp_all
  from before 1 step stored 2 show ?thesis by blast
qed

text \<open>
  C4. Within one sync pass the first occurrence of a key wins. A document
  whose key is in the seen set of the pass is skipped. A pass over a log on
  which it does not panic at an entry's first field is the same as taking
  the triples of the log one by one, with one seen set from the start of the
  pass: the entries in the order of the iterator (newest first) up to the
  stop marker, the fields of an entry in order, the documents of a field
  last to first. And when triples are taken in that way, for the first
  triple of a key, with an \<^verbatim>\<open>int64\<close> revno: no triple before it touches the
  key's registry value or queues an event for the key; the triple itself
  leaves the registry with its canonical revno, as the pass reads it; and no
  triple after it changes that value or queues an event for the key.

  With a collection watcher on \<^verbatim>\<open>apps\<close> (channel 1) on a new watcher, the
  single entry \<^verbatim>\<open>{c="apps", d=[1,2,1], r=[10,11,12]}\<close> has the triples
  \<open>(1, 12)\<close>, \<open>(2, 11)\<close>, \<open>(1, 10)\<close> in this order and queues exactly two
  sync-events for that channel: id 1 with revno 12 and id 2 with revno 11.
  With two entries for document 1, the newer one's revno is the one recorded
  and sent.
\<close>

theorem sync_first_occurrence_wins:
  "(\<forall>cn s ri seen (w :: ('a, 'c, 'd) watcher).
      \<lparr>key_c = cn, key_id = s\<rparr> \<in> seen \<longrightarrow> sync_doc cn (Scalar s) ri (seen, w) = Inr (seen, w)) \<and>
   (\<forall>es (w :: ('a, 'c, 'd) watcher).
      list_all (plain_entry (lastId w)) es \<longrightarrow>
      sync w es False =
        (case first_wins (pass_triples (lastId w) es) ({}, w) of
           Inl p \<Rightarrow> Inl p
         | Inr sw' \<Rightarrow>
             Inr ((snd sw')\<lparr>lastId := (case newest_id es of None \<Rightarrow> lastId w | Some v \<Rightarrow> v)\<rparr>))) \<and>
   (\<forall>pre cn s rv post seen (w :: ('a, 'c, 'd) watcher) seen' w'.
      first_wins (pre @ (cn, Scalar s, Scalar (SInt64 rv)) # post) (seen, w) = Inr (seen', w') \<and>
      \<lparr>key_c = cn, key_id = s\<rparr> \<notin> seen \<and>
      (\<forall>t \<in> set pre. fst (snd t) \<noteq> Scalar s \<or> fst t \<noteq> cn) \<longrightarrow>
      (\<exists>seen1 w1 w2.
         first_wins pre (seen, w) = Inr (seen1, w1) \<and>
         \<lparr>key_c = cn, key_id = s\<rparr> \<notin> seen1 \<and>
         current w1 \<lparr>key_c = cn, key_id = s\<rparr> = current w \<lparr>key_c = cn, key_id = s\<rparr> \<and>
         filter (\<lambda>e. e_key e = \<lparr>key_c = cn, key_id = s\<rparr>) (syncEvents w1)
           = filter (\<lambda>e. e_key e = \<lparr>key_c = cn, key_id = s\<rparr>) (syncEvents w) \<and>
         sync_doc cn (Scalar s) (Scalar (SInt64 rv)) (seen1, w1)
           = Inr (insert \<lparr>key_c = cn, key_id = s\<rparr> seen1, w2) \<and>
         current_at w2 \<lparr>key_c = cn, key_id = s\<rparr> = canonical rv \<and>
         current w' \<lparr>key_c = cn, key_id = s\<rparr> = current w2 \<lparr>key_c = cn, key_id = s\<rparr> \<and>
         filter (\<lambda>e. e_key e = \<lparr>key_c = cn, key_id = s\<rparr>) (syncEvents w')
           = filter (\<lambda>e. e_key e = \<lparr>key_c = cn, key_id = s\<rparr>) (syncEvents w2))) \<and>
   handle (ReqWatch apps_all \<lparr>ch = Some 1, revno = 0\<rparr>) (New doubling (Scalar SNil)) = Inr watching_apps \<and>
   pass_triples (Scalar SNil) [apps_entry] =
     [(''apps'', Scalar (SOther 1), Scalar (SInt64 12)),
      (''apps'', Scalar (SOther 2), Scalar (SInt64 11)),
      (''apps'', Scalar (SOther 1), Scalar (SInt64 10))] \<and>
   (\<exists>w'. sync watching_apps [apps_entry] False = Inr w' \<and>
         syncEvents w' = [\<lparr>e_ch = Some 1, e_key = apps_doc 1, e_revno = 12\<rparr>,
                          \<lparr>e_ch = Some 1, e_key = apps_doc 2, e_revno = 11\<rparr>] \<and>
         current w' (apps_doc 1) = Some 12 \<and> current w' (apps_doc 2) = Some 11) \<and>
   (\<exists>w'. sync watching_apps
            [apps1_entry 101 (Scalar (SInt64 20)), apps1_entry 100 (Scalar (SInt64 10))] False
            = Inr w' \<and>
         syncEvents w' = [\<lparr>e_ch = Some 1, e_key = apps_doc 1, e_revno = 20\<rparr>] \<and>
         current w' (apps_doc 1) = Some 20)"
proof (intro conjI allI impI)
  show "sync_doc cn (Scalar s) ri (seen, w) = Inr (seen, w)"
    if "\<lparr>key_c = cn, key_id = s\<rparr> \<in> seen" for cn s ri seen and w :: "('a, 'c, 'd) watcher"
    using that by (simp add: sync_doc_def Let_def)
  show "sync w es False =
        (case first_wins (pass_triples (lastId w) es) ({}, w) of
           Inl p \<Rightarrow> Inl p
         | Inr sw' \<Rightarrow>
             Inr ((snd sw')\<lparr>lastId := (case newest_id es of None \<Rightarrow> lastId w | Some v \<Rightarrow> v)\<rparr>))"
    if "list_all (plain_entry (lastId w)) es" for es and w :: "('a, 'c, 'd) watcher"
    using sync_entries_first_wins [OF that, of True "{}" w] by (simp add: sync_def)
  show "\<exists>seen1 w1 w2.
         first_wins pre (seen, w) = Inr (seen1, w1) \<and>
         \<lparr>key_c = cn, key_id = s\<rparr> \<notin> seen1 \<and>
         current w1 \<lparr>key_c = cn, key_id = s\<rparr> = current w \<lparr>key_c = cn, key_id = s\<rparr> \<and>
         filter (\<lambda>e. e_key e = \<lparr>key_c = cn, key_id = s\<rparr>) (syncEvents w1)
           = filter (\<lambda>e. e_key e = \<lparr>key_c = cn, key_id = s\<rparr>) (syncEvents w) \<and>
         sync_doc cn (Scalar s) (Scalar (SInt64 rv)) (seen1, w1)
           = Inr (insert \<lparr>key_c = cn, key_id = s\<rparr> seen1, w2) \<and>
         current_at w2 \<lparr>key_c = cn, key_id = s\<rparr> = canonical rv \<and>
         current w' \<lparr>key_c = cn, key_id = s\<rparr> = current w2 \<lparr>key_c = cn, key_id = s\<rparr> \<and>
         filter (\<lambda>e. e_key e = \<lparr>key_c = cn, key_id = s\<rparr>) (syncEvents w')
           = filter (\<lambda>e. e_key e = \<lparr>key_c = cn, key_id = s\<rparr>) (syncEvents w2)"
    if "first_wins (pre @ (cn, Scalar s, Scalar (SInt64 rv)) # post) (seen, w) = Inr (seen', w') \<and>
        \<lparr>key_c = cn, key_id = s\<rparr> \<notin> seen \<and>
        (\<forall>t \<in> set pre. fst (snd t) \<noteq> Scalar s \<or> fst t \<noteq> cn)"
    for pre cn s rv post seen seen' w' and w :: "('a, 'c, 'd) watcher"
    using first_wins_first_occurrence [of pre cn s rv post seen w seen' w' "\<lparr>key_c = cn, key_id = s\<rparr>"]
      that by blast
  show "handle (ReqWatch apps_all \<lparr>ch = Some 1, revno = 0\<rparr>) (New doubling (Scalar SNil))
          = Inr watching_apps"
    by (simp add: watching_apps_def New_def)
  show "pass_triples (Scalar SNil) [apps_entry] =
     [(''apps'', Scalar (SOther 1), Scalar (SInt64 12)),
      (''apps'', Scalar (SOther 2), Scalar (SInt64 11)),
      (''apps'', Scalar (SOther 1), Scalar (SInt64 10))]"
    by (simp add: pass_triples_def entry_triples_def field_triples_def apps_entry_def
          asDoc_def asArr_def)
  show "\<exists>w'. sync watching_apps [apps_entry] False = Inr w' \<and>
         syncEvents w' = [\<lparr>e_ch = Some 1, e_key = apps_doc 1, e_revno = 12\<rparr>,
                          \<lparr>e_ch = Some 1, e_key = apps_doc 2, e_revno = 11\<rparr>] \<and>
         current w' (apps_doc 1) = Some 12 \<and> current w' (apps_doc 2) = Some 11"
    by (simp add: sync_eval watching_apps_def apps_entry_def apps_all_def apps_doc_def
          numeral_3_eq_3)
  show "\<exists>w'. sync watching_apps
            [apps1_entry 101 (Scalar (SInt64 20)), apps1_entry 100 (Scalar (SInt64 10))] False
            = Inr w' \<and>
         syncEvents w' = [\<lparr>e_ch = Some 1, e_key = apps_doc 1, e_revno = 20\<rparr>] \<and>
         current w' (apps_doc 1) = Some 20"
    by (simp add: sync_eval watching_apps_def apps1_entry_def apps_all_def apps_doc_def)
qed

theorem sync_first_occurrence_wins_witness:
  "sync_doc ''apps'' (Scalar (SOther 1)) (Scalar (SInt64 10)) ({apps_doc 1}, watching_apps) =
     Inr ({apps_doc 1}, watching_apps) \<and>
   sync watching_apps [apps_entry] False =
     (case first_wins [(''apps'', Scalar (SOther 1), Scalar (SInt64 12)),
                       (''apps'', Scalar (SOther 2), Scalar (SInt64 11)),
                       (''apps'', Scalar (SOther 1), Scalar (SInt64 10))] ({}, watching_apps) of
        Inl p \<Rightarrow> Inl p
      | Inr sw' \<Rightarrow> Inr ((snd sw')\<lparr>lastId := Scalar (SOther 100)\<rparr>)) \<and>
   (\<exists>w2. sync_doc ''apps'' (Scalar (SOther 1)) (Scalar (SInt64 12)) ({}, watching_apps)
            = Inr ({apps_doc 1}, w2) \<and>
          current_at w2 (apps_doc 1) = 12)"
proof (intro conjI)
  have mem: "\<lparr>key_c = ''apps'', key_id = SOther (1::nat)\<rparr> \<in> {apps_doc 1}"
    by (simp add: apps_doc_def)
  show "sync_doc ''apps'' (Scalar (SOther 1)) (Scalar (SInt64 10))
          ({apps_doc 1}, watching_apps) = Inr ({apps_doc 1}, watching_apps)"
    by (rule sync_first_occurrence_wins [THEN conjunct1, rule_format, OF mem])
  have lid: "lastId watching_apps = Scalar SNil"
    by (simp add: watching_apps_def New_def)
  have plain: "list_all (plain_entry (lastId watching_apps)) [apps_entry]"
    by (simp add: plain_entry_def apps_entry_def lid iface_eq_def)
  have newest: "newest_id [apps_entry] = Some (Scalar (SOther 100))"
    by (simp add: apps_entry_def)
  note triples = sync_first_occurrence_wins
    [THEN conjunct2, THEN conjunct2, THEN conjunct2, THEN conjunct2, THEN conjunct1]
  from sync_first_occurrence_wins [THEN conjunct2, THEN conjunct1, rule_format, OF plain]
  show "sync watching_apps [apps_entry] False =
     (case first_wins [(''apps'', Scalar (SOther 1), Scalar (SInt64 12)),
                       (''apps'', Scalar (SOther 2), Scalar (SInt64 11)),
                       (''apps'', Scalar (SOther 1), Scalar (SInt64 10))] ({}, watching_apps) of
        Inl p \<Rightarrow> Inl p
      | Inr sw' \<Rightarrow> Inr ((snd sw')\<lparr>lastId := Scalar (SOther 100)\<rparr>))"
    unfolding lid triples newest option.case .
  have "\<exists>seen' w'. first_wins ([] @ (''apps'', Scalar (SOther 1), Scalar (SInt64 12)) #
                      [(''apps'', Scalar (SOther 2), Scalar (SInt64 11)),
                       (''apps'', Scalar (SOther 1), Scalar (SInt64 10))]) ({}, watching_apps)
                    = Inr (seen', w')"
    by (simp add: sync_eval watching_apps_def apps_all_def)
  then obtain seen' w' where run:
    "first_wins ([] @ (''apps'', Scalar (SOther 1), Scalar (SInt64 12)) #
                      [(''apps'', Scalar (SOther 2), Scalar (SInt64 11)),
                       (''apps'', Scalar (SOther 1), Scalar (SInt64 10))]) ({}, watching_apps)
       = Inr (seen', w')"
    by blast
  have prem:
    "first_wins ([] @ (''apps'', Scalar (SOther 1), Scalar (SInt64 12)) #
                      [(''apps'', Scalar (SOther 2), Scalar (SInt64 11)),
                       (''apps'', Scalar (SOther 1), Scalar (SInt64 10))]) ({}, watching_apps)
       = Inr (seen', w') \<and>
     \<lparr>key_c = ''apps'', key_id = SOther 1\<rparr> \<notin> {} \<and>
     (\<forall>t \<in> set []. fst (snd t) \<noteq> Scalar (SOther 1) \<or> fst t \<noteq> ''apps'')"
    using run by simp
  from sync_first_occurrence_wins
    [THEN conjunct2, THEN conjunct2, THEN conjunct1, rule_format, OF prem]
  show "\<exists>w2. sync_doc ''apps'' (Scalar (SOther 1)) (Scalar (SInt64 12)) ({}, watching_apps)
            = Inr ({apps_doc 1}, w2) \<and>
          current_at w2 (apps_doc 1) = 12"
    by (auto simp: apps_doc_def canonical_def)
qed

section \<open>Properties of flush\<close>

lemma deliveries_append: "deliveries (xs @ ys) = deliveries xs @ deliveries ys"
  by (induction xs) (auto split: option.splits)

lemma handle_current: "handle rq w = Inr w' \<Longrightarrow> current w' = current w"
  by (cases rq) (auto simp: append_request_def Let_def split: if_splits option.splits)

text \<open>
  Whatever the schedule, the state a flush ends in comes from the state it
  started in by requests handled one after the other, and by emptying the
  queues when the flush ran to completion. So a property that \<^verbatim>\<open>handle\<close>
  keeps holds when the flush stops, up to the emptied queues.
\<close>

lemma flush_request_result:
  assumes step: "\<And>rq w w'. P w \<Longrightarrow> handle rq w = Inr w' \<Longrightarrow> P w'"
    and "P w" and "flush_request i st w sched out = (oc, w', out')"
  shows "if oc = Flushed then \<exists>w''. P w'' \<and> w' = w''\<lparr>syncEvents := [], requestEvents := []\<rparr>
         else P w'"
  using assms(2,3)
proof (induction i st w sched out rule: flush_request.induct)
  case (1 i stale w sched out)
  note unfold = flush_request.simps [of i stale w sched out]
  show ?case
  proof (cases "length (requestEvents w) \<le> i")
    case True
    with "1.prems" unfold show ?thesis by auto
  next
    case False
    show ?thesis
    proof (cases "case stale of None \<Rightarrow> e_ch (requestEvents w ! i) | Some c \<Rightarrow> Some c")
      case None
      with False "1.prems"(2) unfold
      have "flush_request (Suc i) None w sched out = (oc, w', out')" by simp
      from "1.IH"(1) [OF False None "1.prems"(1) this] show ?thesis .
    next
      case (Some c)
      show ?thesis
      proof (cases sched)
        case Nil
        with False Some "1.prems" unfold show ?thesis by simp
      next
        case (Cons x rest)
        show ?thesis
        proof (cases x)
          case SelDying
          with Cons False Some "1.prems" unfold show ?thesis by simp
        next
          case (SelReq rq)
          show ?thesis
          proof (cases "handle rq w")
            case (Inl p)
            with SelReq Cons False Some "1.prems" unfold show ?thesis by simp
          next
            case (Inr w1)
            with SelReq Cons False Some "1.prems"(2) unfold
            have "flush_request i (if requestCap w1 = requestCap w then stale else Some c) w1 rest out
                    = (oc, w', out')" by simp
            from "1.IH"(2) [OF False Some Cons SelReq Inr step [OF "1.prems"(1) Inr] this]
            show ?thesis .
          qed
        next
          case SelSend
          with Cons False Some "1.prems"(2) unfold
          have "flush_request (Suc i) None w rest (out @ [send_of c (requestEvents w ! i)])
                  = (oc, w', out')" by simp
          from "1.IH"(3) [OF False Some Cons SelSend "1.prems"(1) this] show ?thesis .
        qed
      qed
    qed
  qed
qed

lemma flush_sync_result:
  assumes step: "\<And>rq w w'. P w \<Longrightarrow> handle rq w = Inr w' \<Longrightarrow> P w'"
    and "P w" and "flush_sync n w sched out = (oc, w', out')"
  shows "if oc = Flushed then \<exists>w''. P w'' \<and> w' = w''\<lparr>syncEvents := [], requestEvents := []\<rparr>
         else P w'"
  using assms(2,3)
proof (induction n w sched out rule: flush_sync.induct)
  case (1 w sched out)
  from "1.prems"(2) have "flush_request 0 None w sched out = (oc, w', out')" by simp
  from flush_request_result [where P = P, OF step "1.prems"(1) this] show ?case .
next
  case (2 i w sched out)
  show ?case
  proof (cases "e_ch (syncEvents w ! i)")
    case None
    with "2.prems"(2) have "flush_sync i w sched out = (oc, w', out')" by simp
    from "2.IH"(1) [OF None "2.prems"(1) this] show ?thesis .
  next
    case (Some c)
    show ?thesis
    proof (cases sched)
      case Nil
      with Some "2.prems" show ?thesis by auto
    next
      case (Cons x rest)
      show ?thesis
      proof (cases x)
        case SelDying
        with Cons Some "2.prems" show ?thesis by auto
      next
        case (SelReq rq)
        show ?thesis
        proof (cases "handle rq w")
          case (Inl p)
          with SelReq Cons Some "2.prems" show ?thesis by auto
        next
          case (Inr w1)
          with SelReq Cons Some "2.prems"(2)
          have "flush_sync (Suc i) w1 rest out = (oc, w', out')" by simp
          from "2.IH"(2) [OF Some Cons SelReq Inr step [OF "2.prems"(1) Inr] this]
          show ?thesis .
        qed
      next
        case SelSend
        with Cons Some "2.prems"(2)
        have "flush_sync i w rest (out @ [send_of c (syncEvents w ! i)]) = (oc, w', out')" by simp
        from "2.IH"(3) [OF Some Cons SelSend "2.prems"(1) this] show ?thesis .
      qed
    qed
  qed
qed

lemma flush_result:
  assumes step: "\<And>rq w w'. P w \<Longrightarrow> handle rq w = Inr w' \<Longrightarrow> P w'"
    and "P w" and "flush w sched = (oc, w', out')"
  shows "if oc = Flushed then \<exists>w''. P w'' \<and> w' = w''\<lparr>syncEvents := [], requestEvents := []\<rparr>
         else P w'"
proof -
  from assms(3) have "flush_sync (length (syncEvents w)) w sched [] = (oc, w', out')"
    by (simp add: flush_def)
  from flush_sync_result [where P = P, OF step assms(2) this] show ?thesis .
qed

text \<open>The second loop when every subscriber takes its event at once.\<close>

lemma flush_request_sends:
  assumes "st = None \<or> (i < length (requestEvents w) \<and> e_ch (requestEvents w ! i) = st)"
    and "length (deliveries (drop i (requestEvents w))) \<le> n"
  shows "flush_request i st w (replicate n SelSend) out =
           (Flushed, w\<lparr>syncEvents := [], requestEvents := []\<rparr>,
            out @ deliveries (drop i (requestEvents w)))"
  using assms
proof (induction "length (requestEvents w) - i" arbitrary: i st n out)
  case 0
  then have "length (requestEvents w) \<le> i" by simp
  then show ?case by (simp add: flush_request.simps)
next
  case (Suc k)
  then have lt: "i < length (requestEvents w)" by simp
  let ?e = "requestEvents w ! i"
  have dr: "drop i (requestEvents w) = ?e # drop (Suc i) (requestEvents w)"
    using lt by (simp add: Cons_nth_drop_Suc)
  have eff: "(case st of None \<Rightarrow> e_ch ?e | Some c \<Rightarrow> Some c) = e_ch ?e"
    using Suc.prems(1) by (cases st) auto
  have k: "k = length (requestEvents w) - Suc i" using Suc.hyps(2) by simp
  show ?case
  proof (cases "e_ch ?e")
    case None
    have "flush_request i st w (replicate n SelSend) out =
            flush_request (Suc i) None w (replicate n SelSend) out"
      using lt eff None by (subst flush_request.simps) simp
    also have "\<dots> = (Flushed, w\<lparr>syncEvents := [], requestEvents := []\<rparr>,
            out @ deliveries (drop (Suc i) (requestEvents w)))"
      using Suc.prems(2) dr None by (intro Suc.hyps(1) [OF k]) simp_all
    finally show ?thesis using dr None by simp
  next
    case (Some c)
    with Suc.prems(2) dr obtain n' where n: "n = Suc n'"
      and n': "length (deliveries (drop (Suc i) (requestEvents w))) \<le> n'"
      by (cases n) simp_all
    have "flush_request i st w (replicate n SelSend) out =
            flush_request (Suc i) None w (replicate n' SelSend) (out @ [send_of c ?e])"
      using lt eff Some n by (subst flush_request.simps) simp
    also have "\<dots> = (Flushed, w\<lparr>syncEvents := [], requestEvents := []\<rparr>,
            (out @ [send_of c ?e]) @ deliveries (drop (Suc i) (requestEvents w)))"
      using n' by (intro Suc.hyps(1) [OF k]) simp_all
    finally show ?thesis using dr Some by simp
  qed
qed

text \<open>The first loop, from index \<open>m\<close> down, under the same schedule.\<close>

lemma flush_sync_sends:
  assumes "m \<le> length (syncEvents w)"
    and "length (deliveries (take m (syncEvents w))) + length (deliveries (requestEvents w)) \<le> n"
  shows "flush_sync m w (replicate n SelSend) out =
           (Flushed, w\<lparr>syncEvents := [], requestEvents := []\<rparr>,
            out @ deliveries (rev (take m (syncEvents w))) @ deliveries (requestEvents w))"
  using assms
proof (induction m arbitrary: n out)
  case 0
  then show ?case using flush_request_sends [of None 0 w n out] by simp
next
  case (Suc m)
  then have lt: "m < length (syncEvents w)" by simp
  let ?e = "syncEvents w ! m"
  have tk: "take (Suc m) (syncEvents w) = take m (syncEvents w) @ [?e]"
    using lt by (simp add: take_Suc_conv_app_nth)
  show ?case
  proof (cases "e_ch ?e")
    case None
    with Suc.prems(2) tk
    have "length (deliveries (take m (syncEvents w))) + length (deliveries (requestEvents w)) \<le> n"
      by (simp add: deliveries_append)
    with Suc.IH [of n out] lt tk None show ?thesis
      by (simp add: deliveries_append)
  next
    case (Some c)
    with Suc.prems(2) tk obtain n' where n: "n = Suc n'"
      and n': "length (deliveries (take m (syncEvents w))) + length (deliveries (requestEvents w)) \<le> n'"
      by (cases n) (simp_all add: deliveries_append)
    with Suc.IH [of n' "out @ [send_of c ?e]"] lt tk Some show ?thesis
      by (simp add: deliveries_append)
  qed
qed

text \<open>A watch request taken while the flush waits on the first request-event.\<close>

lemma flush_request_grows:
  assumes queue: "requestEvents w = e # es"
    and live: "e_ch e = Some c0"
    and fresh: "\<forall>i \<in> set (watches w key). ch i \<noteq> Some c"
    and cur: "current w key = Some v"
    and newer: "newer v k"
    and n: "n = Suc (length (deliveries (e # es)))"
  shows "\<exists>w'. flush_request 0 None w
                 (SelReq (ReqWatch key \<lparr>ch = Some c, revno = k\<rparr>) # replicate n SelSend) [] =
               (Flushed, w',
                deliveries (e # es) @ [send_of c \<lparr>e_ch = Some c, e_key = key, e_revno = v\<rparr>]) \<and>
              watches w' key = watches w key @ [\<lparr>ch = Some c, revno = v\<rparr>] \<and>
              syncEvents w' = [] \<and> requestEvents w' = []"
proof -
  let ?ev = "\<lparr>e_ch = Some c, e_key = key, e_revno = v\<rparr>"
  define w0 where "w0 = append_request ?ev w"
  define w1 where "w1 = w0\<lparr>watches := (watches w0)(key := watches w0 key @ [\<lparr>ch = Some c, revno = v\<rparr>])\<rparr>"
  have h: "handle (ReqWatch key \<lparr>ch = Some c, revno = k\<rparr>) w = Inr w1"
    using fresh cur newer by (simp add: w1_def w0_def Let_def)
  have q1: "requestEvents w1 = e # es @ [?ev]"
    using queue by (simp add: w1_def w0_def append_request_def)
  have wt: "watches w1 key = watches w key @ [\<lparr>ch = Some c, revno = v\<rparr>]"
    by (simp add: w1_def w0_def append_request_def)
  define st where "st = (if requestCap w1 = requestCap w then None else Some c0)"
  have "flush_request 0 None w
          (SelReq (ReqWatch key \<lparr>ch = Some c, revno = k\<rparr>) # replicate n SelSend) [] =
        flush_request 0 st w1 (replicate n SelSend) []"
    using queue live h by (subst flush_request.simps) (simp add: st_def)
  also have "\<dots> = (Flushed, w1\<lparr>syncEvents := [], requestEvents := []\<rparr>,
                    [] @ deliveries (drop 0 (requestEvents w1)))"
  proof (rule flush_request_sends)
    show "st = None \<or> 0 < length (requestEvents w1) \<and> e_ch (requestEvents w1 ! 0) = st"
      using q1 live by (simp add: st_def)
    show "length (deliveries (drop 0 (requestEvents w1))) \<le> n"
      using q1 n by (simp add: deliveries_append split: option.splits)
  qed
  finally show ?thesis
    using q1 wt live by (simp add: deliveries_append send_of_def split: option.splits)
qed

lemmas flush_eval =
  flush_def flush_request.simps send_of_def newer_def append_request_def doubling_def
  tombstone_def detach_def

text \<open>
  C5. The claim fails in its gloss of the order. The scenario of C4 queues
  the event for id 1 first and the event for id 2 second; the flush sends
  the event for id 2 first: the event queued first is sent last. The claim
  also fails for an event of the request queue that is cleared while the
  flush waits on it, once \<^verbatim>\<open>append\<close> has moved the queue: with channel 1
  waiting on its catch-up event, a watch by channel 2 and then the unwatch
  of channel 1 leave the queue with channels \<open>[nil, 2]\<close>, and the flush
  still sends the event to channel 1.
\<close>

theorem flush_sends_last_queued_first:
  "(\<exists>w'. sync watching_apps [apps_entry] False = Inr w' \<and>
          syncEvents w' = [\<lparr>e_ch = Some 1, e_key = apps_doc 1, e_revno = 12\<rparr>,
                           \<lparr>e_ch = Some 1, e_key = apps_doc 2, e_revno = 11\<rparr>] \<and>
          (\<exists>w''. flush w' [SelSend, SelSend] =
                    (Flushed, w'', [(1, Change ''apps'' (SOther 2) 11),
                                    (1, Change ''apps'' (SOther 1) 12)]))) \<and>
   (\<exists>w1 w2 w3 w4.
      handle (ReqWatch users7 \<lparr>ch = Some 1, revno = 0\<rparr>) knows_users7 = Inr w1 \<and>
      handle (ReqWatch users7 \<lparr>ch = Some 2, revno = 0\<rparr>) w1 = Inr w2 \<and>
      handle (ReqUnwatch users7 (Some 1)) w2 = Inr w3 \<and>
      map e_ch (requestEvents w3) = [None, Some 2] \<and>
      flush w1 [SelReq (ReqWatch users7 \<lparr>ch = Some 2, revno = 0\<rparr>),
                SelReq (ReqUnwatch users7 (Some 1)), SelSend, SelSend] =
        (Flushed, w4, [(1, Change ''users'' (SInt64 7) 5), (2, Change ''users'' (SInt64 7) 5)]))"
  by (simp add: sync_eval flush_eval watching_apps_def apps_entry_def apps_all_def apps_doc_def
        knows_users7_def users7_def numeral_3_eq_3 numeral_2_eq_2)

lemma deliveries_rev: "deliveries (rev xs) = rev (deliveries xs)"
  by (induction xs) (auto simp: deliveries_append split: option.splits)

lemma tombstone_keeps_cleared: "e_ch e = None \<Longrightarrow> e_ch (tombstone k c e) = None"
  by (simp add: tombstone_def)

lemma handle_sync_cleared:
  assumes "handle rq w = Inr w'"
  shows "length (syncEvents w') = length (syncEvents w)"
    and "k < length (syncEvents w) \<Longrightarrow> e_ch (syncEvents w ! k) = None
           \<Longrightarrow> e_ch (syncEvents w' ! k) = None"
  using assms
  by (cases rq; auto simp: append_request_def Let_def tombstone_keeps_cleared
        split: if_splits option.splits)+

lemma handle_request_cleared:
  assumes "handle rq w = Inr w'"
  shows "length (requestEvents w) \<le> length (requestEvents w')"
    and "k < length (requestEvents w) \<Longrightarrow> e_ch (requestEvents w ! k) = None
           \<Longrightarrow> e_ch (requestEvents w' ! k) = None"
  using assms
  by (cases rq; auto simp: append_request_def Let_def tombstone_keeps_cleared nth_append
        split: if_splits option.splits)+

text \<open>The first loop passes over cleared events without reading the schedule.\<close>

lemma flush_sync_finish:
  assumes "m \<le> length (syncEvents w)" and "deliveries (take m (syncEvents w)) = []"
  shows "flush_sync m w sched out = flush_request 0 None w sched out"
  using assms
proof (induction m)
  case 0
  show ?case by simp
next
  case (Suc m)
  then have lt: "m < length (syncEvents w)" by simp
  have tk: "take (Suc m) (syncEvents w) = take m (syncEvents w) @ [syncEvents w ! m]"
    using lt by (simp add: take_Suc_conv_app_nth)
  from Suc.prems(2) tk have dead: "e_ch (syncEvents w ! m) = None"
    and below: "deliveries (take m (syncEvents w)) = []"
    by (auto simp: deliveries_append split: option.splits)
  from Suc.IH [OF _ below] lt dead show ?case by simp
qed

lemma flush_sync_request:
  assumes "m \<le> length (syncEvents w)" and "deliveries (take m (syncEvents w)) \<noteq> []"
    and h: "handle rq w = Inr w'"
  shows "flush_sync m w (SelReq rq # rest) out = flush_sync m w' rest out"
  using assms(1,2)
proof (induction m)
  case 0
  then show ?case by simp
next
  case (Suc m)
  then have lt: "m < length (syncEvents w)" by simp
  have tk: "take (Suc m) (syncEvents w) = take m (syncEvents w) @ [syncEvents w ! m]"
    using lt by (simp add: take_Suc_conv_app_nth)
  show ?case
  proof (cases "e_ch (syncEvents w ! m)")
    case None
    with Suc.prems(2) tk have below: "deliveries (take m (syncEvents w)) \<noteq> []"
      by (simp add: deliveries_append)
    from handle_sync_cleared(2) [OF h lt None] have dead': "e_ch (syncEvents w' ! m) = None" .
    from Suc.IH [OF _ below] lt None dead' show ?thesis by simp
  next
    case (Some c)
    with h show ?thesis by simp
  qed
qed

lemma flush_sync_send:
  assumes "m \<le> length (syncEvents w)"
    and "deliveries (rev (take m (syncEvents w))) = x # xs"
  shows "\<exists>j < m. flush_sync m w (SelSend # rest) out = flush_sync j w rest (out @ [x]) \<and>
                 deliveries (rev (take j (syncEvents w))) = xs"
  using assms
proof (induction m)
  case 0
  then show ?case by simp
next
  case (Suc m)
  then have lt: "m < length (syncEvents w)" by simp
  have tk: "take (Suc m) (syncEvents w) = take m (syncEvents w) @ [syncEvents w ! m]"
    using lt by (simp add: take_Suc_conv_app_nth)
  show ?case
  proof (cases "e_ch (syncEvents w ! m)")
    case None
    with Suc.prems(2) tk have "deliveries (rev (take m (syncEvents w))) = x # xs" by simp
    from Suc.IH [OF _ this] lt obtain j where "j < m"
      "flush_sync m w (SelSend # rest) out = flush_sync j w rest (out @ [x])"
      "deliveries (rev (take j (syncEvents w))) = xs"
      by auto
    with None show ?thesis by (intro exI [of _ j]) simp
  next
    case (Some c)
    with Suc.prems(2) tk have "x = send_of c (syncEvents w ! m)"
      "deliveries (rev (take m (syncEvents w))) = xs"
      by simp_all
    with Some show ?thesis by (intro exI [of _ m]) simp
  qed
qed

text \<open>The second loop, while its pointer is into the slice.\<close>

lemma flush_request_finish:
  assumes "deliveries (drop i (requestEvents w)) = []"
  shows "flush_request i None w sched out = (Flushed, w\<lparr>syncEvents := [], requestEvents := []\<rparr>, out)"
  using assms
proof (induction "length (requestEvents w) - i" arbitrary: i)
  case 0
  then show ?case by (simp add: flush_request.simps)
next
  case (Suc k)
  then have lt: "i < length (requestEvents w)" by simp
  have dr: "drop i (requestEvents w) = requestEvents w ! i # drop (Suc i) (requestEvents w)"
    using lt by (simp add: Cons_nth_drop_Suc)
  from Suc.prems dr have dead: "e_ch (requestEvents w ! i) = None"
    and above: "deliveries (drop (Suc i) (requestEvents w)) = []"
    by (auto split: option.splits)
  have "flush_request i None w sched out = flush_request (Suc i) None w sched out"
    using lt dead by (subst flush_request.simps) simp
  also have "\<dots> = (Flushed, w\<lparr>syncEvents := [], requestEvents := []\<rparr>, out)"
    using Suc.hyps(2) above by (intro Suc.hyps(1)) simp_all
  finally show ?case .
qed

lemma flush_request_send:
  assumes "deliveries (drop i (requestEvents w)) = x # xs"
  shows "\<exists>j \<ge> i. j < length (requestEvents w) \<and>
           flush_request i None w (SelSend # rest) out
             = flush_request (Suc j) None w rest (out @ [x]) \<and>
           deliveries (drop (Suc j) (requestEvents w)) = xs"
  using assms
proof (induction "length (requestEvents w) - i" arbitrary: i)
  case 0
  then show ?case by simp
next
  case (Suc k)
  then have lt: "i < length (requestEvents w)" by simp
  have dr: "drop i (requestEvents w) = requestEvents w ! i # drop (Suc i) (requestEvents w)"
    using lt by (simp add: Cons_nth_drop_Suc)
  show ?case
  proof (cases "e_ch (requestEvents w ! i)")
    case None
    with Suc.prems dr have above: "deliveries (drop (Suc i) (requestEvents w)) = x # xs" by simp
    have k: "k = length (requestEvents w) - Suc i" using Suc.hyps(2) by simp
    from Suc.hyps(1) [OF k above] obtain j where j: "Suc i \<le> j" "j < length (requestEvents w)"
      "flush_request (Suc i) None w (SelSend # rest) out
         = flush_request (Suc j) None w rest (out @ [x])"
      "deliveries (drop (Suc j) (requestEvents w)) = xs"
      by auto
    have "flush_request i None w (SelSend # rest) out
            = flush_request (Suc i) None w (SelSend # rest) out"
      using lt None by (subst flush_request.simps) simp
    with j show ?thesis by (intro exI [of _ j]) simp
  next
    case (Some c)
    with Suc.prems dr have x: "x = send_of c (requestEvents w ! i)"
      and xs: "deliveries (drop (Suc i) (requestEvents w)) = xs"
      by simp_all
    have "flush_request i None w (SelSend # rest) out
            = flush_request (Suc i) None w rest (out @ [x])"
      using lt Some x by (subst flush_request.simps) simp
    with lt xs show ?thesis by (intro exI [of _ i]) simp
  qed
qed

lemma flush_request_request:
  assumes "deliveries (drop i (requestEvents w)) \<noteq> []"
    and h: "handle rq w = Inr w'"
    and same: "requestCap w' = requestCap w"
  shows "flush_request i None w (SelReq rq # rest) out = flush_request i None w' rest out"
  using assms(1)
proof (induction "length (requestEvents w) - i" arbitrary: i)
  case 0
  then show ?case by simp
next
  case (Suc k)
  then have lt: "i < length (requestEvents w)" by simp
  have dr: "drop i (requestEvents w) = requestEvents w ! i # drop (Suc i) (requestEvents w)"
    using lt by (simp add: Cons_nth_drop_Suc)
  show ?case
  proof (cases "e_ch (requestEvents w ! i)")
    case None
    with Suc.prems dr have above: "deliveries (drop (Suc i) (requestEvents w)) \<noteq> []" by simp
    from handle_request_cleared [OF h] lt None
    have lt': "i < length (requestEvents w')" and dead': "e_ch (requestEvents w' ! i) = None"
      by auto
    have "flush_request i None w (SelReq rq # rest) out
            = flush_request (Suc i) None w (SelReq rq # rest) out"
      using lt None by (subst flush_request.simps) simp
    also have "\<dots> = flush_request (Suc i) None w' rest out"
      using Suc.hyps(2) above by (intro Suc.hyps(1)) simp_all
    also have "\<dots> = flush_request i None w' rest out"
      using lt' dead' by (subst (2) flush_request.simps) simp
    finally show ?thesis .
  next
    case (Some c)
    with lt h same show ?thesis by (subst flush_request.simps) simp
  qed
qed

lemma flush_request_moved:
  assumes "deliveries (drop i (requestEvents w)) = x # xs"
    and h: "handle rq w = Inr w'"
    and moved: "requestCap w' \<noteq> requestCap w"
  shows "\<exists>j \<ge> i. j < length (requestEvents w) \<and>
           x = send_of (fst x) (requestEvents w ! j) \<and>
           flush_request i None w (SelReq rq # rest) out
             = flush_request j (Some (fst x)) w' rest out \<and>
           deliveries (drop (Suc j) (requestEvents w)) = xs"
  using assms(1)
proof (induction "length (requestEvents w) - i" arbitrary: i)
  case 0
  then show ?case by simp
next
  case (Suc k)
  then have lt: "i < length (requestEvents w)" by simp
  have dr: "drop i (requestEvents w) = requestEvents w ! i # drop (Suc i) (requestEvents w)"
    using lt by (simp add: Cons_nth_drop_Suc)
  show ?case
  proof (cases "e_ch (requestEvents w ! i)")
    case None
    with Suc.prems dr have above: "deliveries (drop (Suc i) (requestEvents w)) = x # xs" by simp
    have k: "k = length (requestEvents w) - Suc i" using Suc.hyps(2) by simp
    from Suc.hyps(1) [OF k above] obtain j where j: "Suc i \<le> j" "j < length (requestEvents w)"
      "x = send_of (fst x) (requestEvents w ! j)"
      "flush_request (Suc i) None w (SelReq rq # rest) out
         = flush_request j (Some (fst x)) w' rest out"
      "deliveries (drop (Suc j) (requestEvents w)) = xs"
      by auto
    have "flush_request i None w (SelReq rq # rest) out
            = flush_request (Suc i) None w (SelReq rq # rest) out"
      using lt None by (subst flush_request.simps) simp
    with j show ?thesis by (intro exI [of _ j]) simp
  next
    case (Some c)
    with Suc.prems dr have x: "x = send_of c (requestEvents w ! i)"
      and xs: "deliveries (drop (Suc i) (requestEvents w)) = xs"
      by simp_all
    from x have c: "fst x = c" by (simp add: send_of_def)
    have "flush_request i None w (SelReq rq # rest) out
            = flush_request i (Some (fst x)) w' rest out"
      using lt Some h moved c by (subst flush_request.simps) simp
    with lt xs x c show ?thesis by (intro exI [of _ i]) simp
  qed
qed

lemma flush_request_held_send:
  assumes "j < length (requestEvents w)"
  shows "flush_request j (Some c) w (SelSend # rest) out
           = flush_request (Suc j) None w rest (out @ [send_of c (requestEvents w ! j)])"
  using assms by (subst flush_request.simps) simp

lemma flush_request_held_request:
  assumes "j < length (requestEvents w)" and "handle rq w = Inr w'"
  shows "flush_request j (Some c) w (SelReq rq # rest) out
           = flush_request j (Some c) w' rest out"
  using assms by (subst flush_request.simps) simp

text \<open>
  C5, as amended. Flush delivers the sync-event queue in reverse index order,
  so that the event queued last is sent first, then the request-event queue
  in increasing index order up to its length at that moment, which may grow
  during the flush. An event whose channel is cleared when the flush comes
  to send it is skipped without a send: every event of the sync queue,
  whenever it was cleared, and every event of the request queue, unless it
  was cleared while the flush was waiting on it and a request handled during
  that wait had made \<^verbatim>\<open>append\<close> move the queue. After a flush that ran to
  completion both queues are empty.

  In the theorem, first three facts about whole flushes: when every
  subscriber takes its event at once, the sends are those of the
  reversed sync queue followed by those of the request queue, none for a
  cleared event; a flush that ends as \<open>Flushed\<close>, under any schedule, leaves
  both queues empty; and a watch request with a catch-up event, taken while
  the flush waits on the first request-event, has its event delivered by the
  same flush, after the others.

  Then the flush step by step, under any schedule. A flush is its first loop
  from the length of the sync queue. In the first loop with \<open>m\<close> indices
  left: when no event below \<open>m\<close> is live, the second loop starts at index 0;
  when a request is handled, the loop goes on from the same \<open>m\<close> in the
  watcher the request leaves, so that it reads the channels as the request
  left them; when a subscriber takes its event, this is the event of the
  highest live index below \<open>m\<close>, and the loop goes on below it. In the
  second loop at index \<open>i\<close>, reading the queue: when no event from \<open>i\<close> on is
  live, the flush ends and empties both queues; when a subscriber takes its
  event, this is the event of the lowest live index from \<open>i\<close> on, and the
  loop goes on above it; when a request is handled that does not move the
  queue, the loop goes on from \<open>i\<close> in the watcher the request leaves, with
  its channels and its length. When the request moves the queue, the flush
  goes on at the lowest live index \<open>j\<close> holding the channel it has read
  there; it keeps doing so through further requests and, when the subscriber
  takes the event, goes on at \<open>j + 1\<close>, reading the queue again.
\<close>

theorem flush_order:
  fixes w :: "('a, 'c, 'd) watcher"
  shows "(\<forall>n. length (deliveries (syncEvents w)) + length (deliveries (requestEvents w)) \<le> n \<longrightarrow>
            flush w (replicate n SelSend) =
              (Flushed, w\<lparr>syncEvents := [], requestEvents := []\<rparr>,
               deliveries (rev (syncEvents w)) @ deliveries (requestEvents w))) \<and>
         (\<forall>sched w' out. flush w sched = (Flushed, w', out) \<longrightarrow>
            syncEvents w' = [] \<and> requestEvents w' = []) \<and>
         (\<forall>e es c0 key c k v.
            syncEvents w = [] \<and> requestEvents w = e # es \<and> e_ch e = Some c0 \<and>
            (\<forall>i \<in> set (watches w key). ch i \<noteq> Some c) \<and>
            current w key = Some v \<and> newer v k \<longrightarrow>
            (\<exists>w'. flush w (SelReq (ReqWatch key \<lparr>ch = Some c, revno = k\<rparr>) #
                            replicate (Suc (length (deliveries (e # es)))) SelSend) =
                     (Flushed, w',
                      deliveries (e # es) @
                      [send_of c \<lparr>e_ch = Some c, e_key = key, e_revno = v\<rparr>]) \<and>
                   watches w' key = watches w key @ [\<lparr>ch = Some c, revno = v\<rparr>] \<and>
                   syncEvents w' = [] \<and> requestEvents w' = [])) \<and>
         (\<forall>sched. flush w sched = flush_sync (length (syncEvents w)) w sched []) \<and>
         (\<forall>m sched out.
            m \<le> length (syncEvents w) \<and> deliveries (take m (syncEvents w)) = [] \<longrightarrow>
            flush_sync m w sched out = flush_request 0 None w sched out) \<and>
         (\<forall>m rq w' rest out.
            m \<le> length (syncEvents w) \<and> deliveries (take m (syncEvents w)) \<noteq> [] \<and>
            handle rq w = Inr w' \<longrightarrow>
            flush_sync m w (SelReq rq # rest) out = flush_sync m w' rest out) \<and>
         (\<forall>m x xs rest out.
            m \<le> length (syncEvents w) \<and> deliveries (rev (take m (syncEvents w))) = x # xs \<longrightarrow>
            (\<exists>j < m. flush_sync m w (SelSend # rest) out = flush_sync j w rest (out @ [x]) \<and>
                      deliveries (rev (take j (syncEvents w))) = xs)) \<and>
         (\<forall>i sched out.
            deliveries (drop i (requestEvents w)) = [] \<longrightarrow>
            flush_request i None w sched out
              = (Flushed, w\<lparr>syncEvents := [], requestEvents := []\<rparr>, out)) \<and>
         (\<forall>i x xs rest out.
            deliveries (drop i (requestEvents w)) = x # xs \<longrightarrow>
            (\<exists>j \<ge> i. j < length (requestEvents w) \<and>
                      flush_request i None w (SelSend # rest) out
                        = flush_request (Suc j) None w rest (out @ [x]) \<and>
                      deliveries (drop (Suc j) (requestEvents w)) = xs)) \<and>
         (\<forall>i rq w' rest out.
            deliveries (drop i (requestEvents w)) \<noteq> [] \<and> handle rq w = Inr w' \<and>
            requestCap w' = requestCap w \<longrightarrow>
            flush_request i None w (SelReq rq # rest) out = flush_request i None w' rest out) \<and>
         (\<forall>i x xs rq w' rest out.
            deliveries (drop i (requestEvents w)) = x # xs \<and> handle rq w = Inr w' \<and>
            requestCap w' \<noteq> requestCap w \<longrightarrow>
            (\<exists>j \<ge> i. j < length (requestEvents w) \<and>
                      x = send_of (fst x) (requestEvents w ! j) \<and>
                      flush_request i None w (SelReq rq # rest) out
                        = flush_request j (Some (fst x)) w' rest out \<and>
                      deliveries (drop (Suc j) (requestEvents w)) = xs)) \<and>
         (\<forall>j c rq w' rest out.
            j < length (requestEvents w) \<and> handle rq w = Inr w' \<longrightarrow>
            flush_request j (Some c) w (SelReq rq # rest) out
              = flush_request j (Some c) w' rest out) \<and>
         (\<forall>j c rest out.
            j < length (requestEvents w) \<longrightarrow>
            flush_request j (Some c) w (SelSend # rest) out
              = flush_request (Suc j) None w rest (out @ [send_of c (requestEvents w ! j)]))"
proof (intro conjI allI impI)
  show "flush w (replicate n SelSend) =
          (Flushed, w\<lparr>syncEvents := [], requestEvents := []\<rparr>,
           deliveries (rev (syncEvents w)) @ deliveries (requestEvents w))"
    if "length (deliveries (syncEvents w)) + length (deliveries (requestEvents w)) \<le> n" for n
    using flush_sync_sends [of "length (syncEvents w)" w n "[]"] that
    by (simp add: flush_def)
  show "syncEvents w' = []" if fl: "flush w sched = (Flushed, w', out)" for sched w' out
  proof -
    have "if Flushed = Flushed
          then \<exists>w''. True \<and> w' = w''\<lparr>syncEvents := [], requestEvents := []\<rparr> else True"
      by (rule flush_result [where P = "\<lambda>_. True", OF _ _ fl]) simp_all
    then obtain w'' where "w' = w''\<lparr>syncEvents := [], requestEvents := []\<rparr>" by auto
    then show ?thesis by simp
  qed
  show "requestEvents w' = []" if fl: "flush w sched = (Flushed, w', out)" for sched w' out
  proof -
    have "if Flushed = Flushed
          then \<exists>w''. True \<and> w' = w''\<lparr>syncEvents := [], requestEvents := []\<rparr> else True"
      by (rule flush_result [where P = "\<lambda>_. True", OF _ _ fl]) simp_all
    then obtain w'' where "w' = w''\<lparr>syncEvents := [], requestEvents := []\<rparr>" by auto
    then show ?thesis by simp
  qed
  show "\<exists>w'. flush w (SelReq (ReqWatch key \<lparr>ch = Some c, revno = k\<rparr>) #
                       replicate (Suc (length (deliveries (e # es)))) SelSend) =
                (Flushed, w',
                 deliveries (e # es) @ [send_of c \<lparr>e_ch = Some c, e_key = key, e_revno = v\<rparr>]) \<and>
              watches w' key = watches w key @ [\<lparr>ch = Some c, revno = v\<rparr>] \<and>
              syncEvents w' = [] \<and> requestEvents w' = []"
    if a: "syncEvents w = [] \<and> requestEvents w = e # es \<and> e_ch e = Some c0 \<and>
           (\<forall>i \<in> set (watches w key). ch i \<noteq> Some c) \<and>
           current w key = Some v \<and> newer v k"
    for e es c0 key c k v
  proof -
    from a have s: "syncEvents w = []" and q: "requestEvents w = e # es"
      and l: "e_ch e = Some c0" and f: "\<forall>i \<in> set (watches w key). ch i \<noteq> Some c"
      and cv: "current w key = Some v" and nw: "newer v k"
      by simp_all
    from flush_request_grows [OF q l f cv nw refl] s show ?thesis
      by (simp add: flush_def)
  qed
  show "flush w sched = flush_sync (length (syncEvents w)) w sched []" for sched
    by (simp add: flush_def)
  show "flush_sync m w sched out = flush_request 0 None w sched out"
    if "m \<le> length (syncEvents w) \<and> deliveries (take m (syncEvents w)) = []" for m sched out
    using that by (simp add: flush_sync_finish)
  show "flush_sync m w (SelReq rq # rest) out = flush_sync m w' rest out"
    if "m \<le> length (syncEvents w) \<and> deliveries (take m (syncEvents w)) \<noteq> [] \<and>
        handle rq w = Inr w'"
    for m rq w' rest out
    using that by (simp add: flush_sync_request)
  show "\<exists>j < m. flush_sync m w (SelSend # rest) out = flush_sync j w rest (out @ [x]) \<and>
                 deliveries (rev (take j (syncEvents w))) = xs"
    if "m \<le> length (syncEvents w) \<and> deliveries (rev (take m (syncEvents w))) = x # xs"
    for m x xs rest out
    using that flush_sync_send [of m w x xs rest out] by simp
  show "flush_request i None w sched out
          = (Flushed, w\<lparr>syncEvents := [], requestEvents := []\<rparr>, out)"
    if "deliveries (drop i (requestEvents w)) = []" for i sched out
    using that by (rule flush_request_finish)
  show "\<exists>j \<ge> i. j < length (requestEvents w) \<and>
                 flush_request i None w (SelSend # rest) out
                   = flush_request (Suc j) None w rest (out @ [x]) \<and>
                 deliveries (drop (Suc j) (requestEvents w)) = xs"
    if "deliveries (drop i (requestEvents w)) = x # xs" for i x xs rest out
    using that by (rule flush_request_send)
  show "flush_request i None w (SelReq rq # rest) out = flush_request i None w' rest out"
    if "deliveries (drop i (requestEvents w)) \<noteq> [] \<and> handle rq w = Inr w' \<and>
        requestCap w' = requestCap w"
    for i rq w' rest out
    using that by (simp add: flush_request_request)
  show "\<exists>j \<ge> i. j < length (requestEvents w) \<and>
                 x = send_of (fst x) (requestEvents w ! j) \<and>
                 flush_request i None w (SelReq rq # rest) out
                   = flush_request j (Some (fst x)) w' rest out \<and>
                 deliveries (drop (Suc j) (requestEvents w)) = xs"
    if "deliveries (drop i (requestEvents w)) = x # xs \<and> handle rq w = Inr w' \<and>
        requestCap w' \<noteq> requestCap w"
    for i x xs rq w' rest out
    using that flush_request_moved [of i w x xs rq w' rest out] by simp
  show "flush_request j (Some c) w (SelReq rq # rest) out
          = flush_request j (Some c) w' rest out"
    if "j < length (requestEvents w) \<and> handle rq w = Inr w'" for j c rq w' rest out
    using that by (simp add: flush_request_held_request)
  show "flush_request j (Some c) w (SelSend # rest) out
          = flush_request (Suc j) None w rest (out @ [send_of c (requestEvents w ! j)])"
    if "j < length (requestEvents w)" for j c rest out
    using that by (rule flush_request_held_send)
qed

theorem flush_order_witness:
  "flush pending (replicate 3 SelSend) =
     (Flushed, pending\<lparr>syncEvents := [], requestEvents := []\<rparr>,
      [(2, Change ''apps'' (SOther 3) 4), (1, Change ''apps'' (SOther 1) 12),
       (3, Change ''users'' (SInt64 7) 5)]) \<and>
   (\<exists>w'. flush (pending\<lparr>syncEvents := []\<rparr>)
            [SelReq (ReqWatch users7 \<lparr>ch = Some 4, revno = 0\<rparr>), SelSend, SelSend] =
            (Flushed, w', [(3, Change ''users'' (SInt64 7) 5), (4, Change ''users'' (SInt64 7) 5)]) \<and>
          syncEvents w' = [] \<and> requestEvents w' = []) \<and>
   (\<exists>w'. flush two_pending [SelReq (ReqUnwatch (apps_doc 1) (Some 1)), SelSend] =
            (Flushed, w', [(2, Change ''apps'' (SOther 2) 11)]))"
proof (intro conjI)
  from flush_order [of pending, THEN conjunct1, rule_format, of 3]
  show "flush pending (replicate 3 SelSend) =
     (Flushed, pending\<lparr>syncEvents := [], requestEvents := []\<rparr>,
      [(2, Change ''apps'' (SOther 3) 4), (1, Change ''apps'' (SOther 1) 12),
       (3, Change ''users'' (SInt64 7) 5)])"
    by (simp add: pending_def send_of_def apps_doc_def users7_def)
  from flush_order [of "pending\<lparr>syncEvents := []\<rparr>", THEN conjunct2, THEN conjunct2,
      THEN conjunct1, rule_format,
      of "\<lparr>e_ch = Some 3, e_key = users7, e_revno = 5\<rparr>" "[]" 3 users7 4 5 0]
  show "\<exists>w'. flush (pending\<lparr>syncEvents := []\<rparr>)
            [SelReq (ReqWatch users7 \<lparr>ch = Some 4, revno = 0\<rparr>), SelSend, SelSend] =
            (Flushed, w', [(3, Change ''users'' (SInt64 7) 5), (4, Change ''users'' (SInt64 7) 5)]) \<and>
          syncEvents w' = [] \<and> requestEvents w' = []"
    by (auto simp: pending_def knows_users7_def New_def send_of_def users7_def newer_def
          numeral_2_eq_2)
  have "\<exists>u. handle (ReqUnwatch (apps_doc 1) (Some 1)) two_pending = Inr u \<and>
             map e_ch (syncEvents u) = [None, Some 2] \<and>
             map e_key (syncEvents u) = [apps_doc 1, apps_doc 2] \<and>
             map e_revno (syncEvents u) = [12, 11] \<and>
             requestEvents u = []"
    by (simp add: two_pending_def New_def tombstone_def apps_doc_def)
  then obtain u where u: "handle (ReqUnwatch (apps_doc 1) (Some 1)) two_pending = Inr u"
    and chs: "map e_ch (syncEvents u) = [None, Some 2]"
    and keys: "map e_key (syncEvents u) = [apps_doc 1, apps_doc 2]"
    and revs: "map e_revno (syncEvents u) = [12, 11]"
    and reqs: "requestEvents u = []"
    by (elim exE conjE)
  from chs keys revs obtain a b where ab: "syncEvents u = [a, b]"
    and a: "e_ch a = None"
    and b: "e_ch b = Some 2" "e_key b = apps_doc 2" "e_revno b = 11"
    by (cases "syncEvents u"; cases "tl (syncEvents u)") auto
  have prem: "2 \<le> length (syncEvents two_pending) \<and>
              deliveries (take 2 (syncEvents two_pending)) \<noteq> [] \<and>
              handle (ReqUnwatch (apps_doc 1) (Some 1)) two_pending = Inr u"
    using u by (simp add: two_pending_def)
  have len: "length (syncEvents two_pending) = 2"
    by (simp add: two_pending_def)
  have "flush two_pending [SelReq (ReqUnwatch (apps_doc 1) (Some 1)), SelSend]
          = flush_sync 2 two_pending [SelReq (ReqUnwatch (apps_doc 1) (Some 1)), SelSend] []"
    by (simp only: flush_def len)
  also from flush_order [of two_pending, THEN conjunct2, THEN conjunct2, THEN conjunct2,
      THEN conjunct2, THEN conjunct2, THEN conjunct1, rule_format, OF prem]
  have "\<dots> = flush_sync 2 u [SelSend] []" .
  also have "\<dots> = (Flushed, u\<lparr>syncEvents := [], requestEvents := []\<rparr>,
                     [(2, Change ''apps'' (SOther 2) 11)])"
    using ab a b reqs
    by (simp add: numeral_2_eq_2 flush_request.simps send_of_def apps_doc_def)
  finally show "\<exists>w'. flush two_pending [SelReq (ReqUnwatch (apps_doc 1) (Some 1)), SelSend] =
            (Flushed, w', [(2, Change ''apps'' (SOther 2) 11)])"
    by blast
qed

text \<open>
  C6. The collection watcher of C4 (channel 1 on \<^verbatim>\<open>apps\<close>) has two events
  pending after the sync pass. The flush waits on channel 1 and its
  \<^verbatim>\<open>select\<close> takes \<^verbatim>\<open>UnwatchCollection("apps", ch)\<close>. The record of the
  channel is removed, but the pending events carry the keys of their
  documents, not the key of the collection, so the test \<^verbatim>\<open>e.key == r.key\<close>
  clears neither of them: both are sent to channel 1 after its unwatch.

  The second part is about a document key. A watcher knows revno 5 for
  document 7 of \<^verbatim>\<open>users\<close>. The dispatcher handles \<^verbatim>\<open>Watch("users", 7, 0, ch1)\<close>:
  the catch-up event is the only element of the request queue, whose array
  has capacity 1. The flush waits on channel 1. Its \<^verbatim>\<open>select\<close> takes
  \<^verbatim>\<open>Watch("users", 7, 0, ch2)\<close>, whose catch-up event makes \<^verbatim>\<open>append\<close> move
  the queue to a new array, and then \<^verbatim>\<open>Unwatch("users", 7, ch1)\<close>, which
  removes the record of channel 1 and clears its event in the new array. The
  flush still reads the channel of the old element and, when channel 1 is
  ready, sends it the event. With room for a second element in the array
  (capacity 2) the same schedule sends nothing to channel 1.
\<close>

theorem unwatch_then_still_sent:
  "(\<exists>w'. sync watching_apps [apps_entry] False = Inr w' \<and>
      syncEvents w' = [\<lparr>e_ch = Some 1, e_key = apps_doc 1, e_revno = 12\<rparr>,
                       \<lparr>e_ch = Some 1, e_key = apps_doc 2, e_revno = 11\<rparr>] \<and>
      (\<exists>w''. flush w' [SelReq (ReqUnwatch apps_all (Some 1)), SelSend, SelSend] =
                (Flushed, w'', [(1, Change ''apps'' (SOther 2) 11),
                                (1, Change ''apps'' (SOther 1) 12)]) \<and>
              watches w'' apps_all = [])) \<and>
   (\<exists>w1. handle (ReqWatch users7 \<lparr>ch = Some 1, revno = 0\<rparr>) knows_users7 = Inr w1 \<and>
      requestEvents w1 = [\<lparr>e_ch = Some 1, e_key = users7, e_revno = 5\<rparr>] \<and>
      requestCap w1 = 1 \<and>
      (\<exists>w4. flush w1 [SelReq (ReqWatch users7 \<lparr>ch = Some 2, revno = 0\<rparr>),
                       SelReq (ReqUnwatch users7 (Some 1)), SelSend, SelSend] =
               (Flushed, w4, [(1, Change ''users'' (SInt64 7) 5),
                              (2, Change ''users'' (SInt64 7) 5)]) \<and>
             watches w4 users7 = [\<lparr>ch = Some 2, revno = 5\<rparr>]) \<and>
      (\<exists>w4. flush (w1\<lparr>requestCap := 2\<rparr>)
                 [SelReq (ReqWatch users7 \<lparr>ch = Some 2, revno = 0\<rparr>),
                  SelReq (ReqUnwatch users7 (Some 1)), SelSend, SelSend] =
               (Flushed, w4, [(2, Change ''users'' (SInt64 7) 5)]) \<and>
             watches w4 users7 = [\<lparr>ch = Some 2, revno = 5\<rparr>]))"
  by (simp add: sync_eval flush_eval watching_apps_def apps_entry_def apps_all_def apps_doc_def
        knows_users7_def users7_def numeral_3_eq_3 numeral_2_eq_2)

section \<open>The keys of the registry\<close>

lemma sync_doc_documents_only:
  assumes "sync_doc cn di ri (seen, w) = Inr (seen', w')"
    and "di \<noteq> Scalar SNil" and "documents_only w"
  shows "documents_only w'"
  using assms
  by (auto simp: sync_doc_def observe_def Let_def documents_only_def
           split: bval.splits scalar.splits if_splits prod.splits)

lemma sync_docs_documents_only:
  assumes "sync_docs cn d r n (seen, w) = Inr (seen', w')"
    and "\<forall>j < n. d ! j \<noteq> Scalar SNil" and "documents_only w"
  shows "documents_only w'"
  using assms
proof (induction n arbitrary: seen w)
  case 0
  then show ?case by simp
next
  case (Suc n)
  from Suc.prems(1) obtain seen1 w1 where
    step: "sync_doc cn (d ! n) (r ! n) (seen, w) = Inr (seen1, w1)" and
    rest: "sync_docs cn d r n (seen1, w1) = Inr (seen', w')"
    by (auto split: sum.splits)
  from Suc.prems(2) have dn: "d ! n \<noteq> Scalar SNil" and below: "\<forall>j < n. d ! j \<noteq> Scalar SNil"
    by simp_all
  from sync_doc_documents_only [OF step dn Suc.prems(3)] have "documents_only w1" .
  from Suc.IH [OF rest below this] show ?case .
qed

lemma sync_fields_documents_only:
  assumes "sync_fields cs (seen, w) = Inr (seen', w')"
    and "list_all (\<lambda>f. field_ids_present (snd f)) cs" and "documents_only w"
  shows "documents_only w'"
  using assms
proof (induction cs arbitrary: seen w)
  case Nil
  then show ?case by simp
next
  case (Cons c cs)
  obtain cn v where c: "c = (cn, v)" by (cases c)
  obtain d r where dr: "scan_dr (asDoc v) [] [] = (d, r)" by (cases "scan_dr (asDoc v) [] []")
  from Cons.prems(2) c dr have here: "Scalar SNil \<notin> set d"
    and later: "list_all (\<lambda>f. field_ids_present (snd f)) cs"
    by (simp_all add: field_ids_present_def)
  show ?case
  proof (cases "length d = 0 \<or> length d \<noteq> length r")
    case True
    with Cons.prems(1) c dr have "sync_fields cs (seen, w) = Inr (seen', w')" by simp
    from Cons.IH [OF this later Cons.prems(3)] show ?thesis .
  next
    case False
    with Cons.prems(1) c dr obtain seen1 w1 where
      step: "sync_docs cn d r (length d) (seen, w) = Inr (seen1, w1)" and
      rest: "sync_fields cs (seen1, w1) = Inr (seen', w')"
      by (auto split: sum.splits)
    from here have "\<forall>j < length d. d ! j \<noteq> Scalar SNil"
      by (metis nth_mem)
    from sync_docs_documents_only [OF step this Cons.prems(3)] have "documents_only w1" .
    from Cons.IH [OF rest later this] show ?thesis .
  qed
qed

lemma sync_entries_documents_only:
  assumes "sync_entries lid err es first (seen, w) = Inr w'"
    and "list_all entry_ids_present es" and "documents_only w"
  shows "documents_only w'"
  using assms
proof (induction es arbitrary: first seen w)
  case Nil
  then show ?case by (simp split: if_splits)
next
  case (Cons e es)
  from Cons.prems(2) have e_ok: "entry_ids_present e" and es_ok: "list_all entry_ids_present es"
    by simp_all
  show ?case
  proof (cases e)
    case Nil
    with Cons.prems(1) have "sync_entries lid err es first (seen, w) = Inr w'" by simp
    from Cons.IH [OF this es_ok Cons.prems(3)] show ?thesis .
  next
    case (Cons f cs)
    obtain name v where f: "f = (name, v)" by (cases f)
    define w1 where "w1 = (if first then w\<lparr>lastId := v\<rparr> else w)"
    from Cons.prems(3) have inv1: "documents_only w1"
      by (simp add: w1_def documents_only_def)
    from e_ok Cons have cs_ok: "list_all (\<lambda>f. field_ids_present (snd f)) cs"
      by (simp add: entry_ids_present_def)
    from Cons.prems(1) Cons f have name: "name = ''_id''" by (simp split: if_splits)
    note unfold = sync_entries_id [of lid err v cs es first seen w, folded w1_def]
    from Cons.prems(1) Cons f name unfold obtain b where eq: "iface_eq v lid = Inr b"
      by (cases "iface_eq v lid") simp_all
    show ?thesis
    proof (cases b)
      case True
      with Cons.prems(1) Cons f name unfold eq have "w' = w1" by simp
      with inv1 show ?thesis by simp
    next
      case False
      with Cons.prems(1) Cons f name unfold eq obtain seen1 w2 where
        step: "sync_fields cs (seen, w1) = Inr (seen1, w2)" and
        rest: "sync_entries lid err es False (seen1, w2) = Inr w'"
        by (cases "sync_fields cs (seen, w1)") auto
      from sync_fields_documents_only [OF step cs_ok inv1] have "documents_only w2" .
      from Cons.IH [OF rest es_ok this] show ?thesis .
    qed
  qed
qed

lemma flush_current:
  assumes "flush w sched = (oc, w', out)"
  shows "current w' = current w"
proof -
  have "if oc = Flushed
        then \<exists>w''. current w'' = current w \<and> w' = w''\<lparr>syncEvents := [], requestEvents := []\<rparr>
        else current w' = current w"
    by (rule flush_result [where P = "\<lambda>x. current x = current w", OF _ _ assms])
       (simp_all add: handle_current)
  then show ?thesis by (auto split: if_splits)
qed

lemma reachable_documents_only: "reachable w \<Longrightarrow> documents_only w"
proof (induction rule: reachable.induct)
  case (new grow lid)
  show ?case by (simp add: documents_only_def New_def)
next
  case (tick w)
  then show ?case by (simp add: documents_only_def)
next
  case (synced w entries iter_err w')
  from synced.hyps(3) have "sync_entries (lastId w) iter_err entries True ({}, w) = Inr w'"
    by (simp add: sync_def)
  from sync_entries_documents_only [OF this synced.hyps(2) synced.IH] show ?case .
next
  case (handled w rq w')
  then show ?case by (simp add: documents_only_def handle_current)
next
  case (flushed w sched oc w' out)
  then show ?case by (simp add: documents_only_def flush_current)
qed

text \<open>
  C9. The claim fails on a log entry whose document id is \<^verbatim>\<open>nil\<close>: the sync
  pass builds the key \<^verbatim>\<open>watchKey{"apps", nil}\<close> from it, which is the key of
  the collection, and stores revno 5 under it; a \<^verbatim>\<open>WatchCollection("apps", ch)\<close>
  handled after that finds the key in the registry, with \<open>5 > 0\<close>, and queues
  a catch-up event.
\<close>

theorem nil_document_id_enters_registry:
  "\<exists>w'. sync (New doubling (Scalar SNil) :: (nat, nat, nat) watcher) [nil_entry] False = Inr w' \<and>
         current w' apps_all = Some 5 \<and>
         (\<exists>w''. handle (ReqWatch apps_all \<lparr>ch = Some 1, revno = 0\<rparr>) w' = Inr w'' \<and>
                 requestEvents w'' = [\<lparr>e_ch = Some 1, e_key = apps_all, e_revno = 5\<rparr>])"
  by (simp add: sync_eval nil_entry_def apps_all_def newer_def append_request_def)

text \<open>
  C9, as amended. As long as no change-log entry carries a \<^verbatim>\<open>nil\<close> document
  id, the registry only ever holds per-document keys: the sync pass is its
  sole writer and writes keys built from the document ids of the log, and
  neither a request handler nor a flush writes it. So in every state of the
  dispatcher the key of a collection is absent from the registry, and a
  \<^verbatim>\<open>WatchCollection\<close> attach (a \<^verbatim>\<open>reqWatch\<close> with key \<open>(collection, nil)\<close> and
  declared revno 0) whose channel is not attached yet appends the subscriber
  and leaves the request-event queue as it is.
\<close>

theorem registry_holds_documents_only:
  assumes "reachable w"
  shows "current w \<lparr>key_c = cn, key_id = SNil\<rparr> = None \<and>
         (\<forall>rq w'. handle rq w = Inr w' \<longrightarrow> current w' = current w) \<and>
         (\<forall>sched oc w' out. flush w sched = (oc, w', out) \<longrightarrow> current w' = current w) \<and>
         ((\<forall>i \<in> set (watches w \<lparr>key_c = cn, key_id = SNil\<rparr>). ch i \<noteq> c) \<longrightarrow>
          (\<exists>w'. handle (ReqWatch \<lparr>key_c = cn, key_id = SNil\<rparr> \<lparr>ch = c, revno = 0\<rparr>) w = Inr w' \<and>
                 requestEvents w' = requestEvents w \<and>
                 watches w' \<lparr>key_c = cn, key_id = SNil\<rparr> =
                   watches w \<lparr>key_c = cn, key_id = SNil\<rparr> @ [\<lparr>ch = c, revno = 0\<rparr>]))"
proof -
  from reachable_documents_only [OF assms]
  have absent: "current w \<lparr>key_c = cn, key_id = SNil\<rparr> = None"
    by (simp add: documents_only_def)
  show ?thesis
  proof (intro conjI allI impI)
    show "current w \<lparr>key_c = cn, key_id = SNil\<rparr> = None" by (rule absent)
    show "current w' = current w" if "handle rq w = Inr w'" for rq w'
      using that by (rule handle_current)
    show "current w' = current w" if "flush w sched = (oc, w', out)" for sched oc w' out
      using that by (rule flush_current)
    show "\<exists>w'. handle (ReqWatch \<lparr>key_c = cn, key_id = SNil\<rparr> \<lparr>ch = c, revno = 0\<rparr>) w = Inr w' \<and>
                 requestEvents w' = requestEvents w \<and>
                 watches w' \<lparr>key_c = cn, key_id = SNil\<rparr> =
                   watches w \<lparr>key_c = cn, key_id = SNil\<rparr> @ [\<lparr>ch = c, revno = 0\<rparr>]"
      if "\<forall>i \<in> set (watches w \<lparr>key_c = cn, key_id = SNil\<rparr>). ch i \<noteq> c"
      using that absent by simp
  qed
qed

theorem registry_holds_documents_only_witness:
  "\<exists>w. sync watching_apps [apps_entry] False = Inr w \<and>
        current w apps_all = None \<and>
        (\<exists>w'. handle (ReqWatch apps_all \<lparr>ch = Some 2, revno = 0\<rparr>) w = Inr w' \<and>
               requestEvents w' = requestEvents w \<and>
               watches w' apps_all = [\<lparr>ch = Some 1, revno = 0\<rparr>, \<lparr>ch = Some 2, revno = 0\<rparr>])"
proof -
  have "handle (ReqWatch apps_all \<lparr>ch = Some 1, revno = 0\<rparr>) (New doubling (Scalar SNil)) = Inr watching_apps"
    by (simp add: watching_apps_def New_def)
  from reachable.handled [OF reachable.new this] have r1: "reachable watching_apps" .
  have "\<exists>w. sync watching_apps [apps_entry] False = Inr w \<and>
            watches w apps_all = [\<lparr>ch = Some 1, revno = 0\<rparr>]"
    by (simp add: sync_eval watching_apps_def apps_entry_def apps_all_def numeral_3_eq_3)
  then obtain w where s: "sync watching_apps [apps_entry] False = Inr w"
    and ws: "watches w apps_all = [\<lparr>ch = Some 1, revno = 0\<rparr>]"
    by blast
  have ok: "list_all entry_ids_present [apps_entry]"
    by (simp add: entry_ids_present_def field_ids_present_def apps_entry_def asDoc_def asArr_def)
  from reachable.synced [OF r1 ok s] have r2: "reachable w" .
  from registry_holds_documents_only [OF r2, of "''apps''" "Some 2"] s ws
  show ?thesis by (auto simp: apps_all_def)
qed


end
